theory Spec2Isabelle
  imports Complex_Main "HOL-Library.Sublist" "HOL-Library.List_Lexorder" "HOL-Library.AList"
    "HOL-Library.Multiset" "HOL-Library.Code_Target_Nat"
begin

section \<open>Python strings\<close>

text \<open>
  A Python \<open>str\<close> is a sequence of Unicode code points, so it is modelled as a list of
  natural numbers; \<open>py ''nav''\<close> is the literal \<open>"nav"\<close>. The order of
  \<open>HOL-Library.List_Lexorder\<close> on such lists is Python's string order (code point by
  code point, a proper prefix first), which is what \<open>sorted\<close> uses.
\<close>

type_synonym pystr = "nat list"

abbreviation (input) py :: "string \<Rightarrow> pystr" where
  "py s \<equiv> map of_char s"

text \<open>\<open>str.isspace\<close> on one code point: the whitespace of \<open>str.strip()\<close> and of the
  regular expression class \<open>\s\<close>.\<close>

definition isspace :: "nat \<Rightarrow> bool" where
  "isspace c \<longleftrightarrow>
     (9 \<le> c \<and> c \<le> 13) \<or> (28 \<le> c \<and> c \<le> 32) \<or> c = 133 \<or> c = 160 \<or> c = 5760 \<or>
     (8192 \<le> c \<and> c \<le> 8202) \<or> c = 8232 \<or> c = 8233 \<or> c = 8239 \<or> c = 8287 \<or> c = 12288"

text \<open>\<open>s.strip(chars)\<close>, with the characters to remove given as a predicate.\<close>

definition strip_chars :: "(nat \<Rightarrow> bool) \<Rightarrow> pystr \<Rightarrow> pystr" where
  "strip_chars P s = rev (dropWhile P (rev (dropWhile P s)))"

definition strip :: "pystr \<Rightarrow> pystr" where
  "strip s = strip_chars isspace s"

text \<open>\<open>re.sub(r"\s+", " ", s)\<close>: every maximal run of whitespace becomes one space.\<close>

function collapse_ws :: "pystr \<Rightarrow> pystr" where
  "collapse_ws [] = []"
| "collapse_ws (c # cs) =
     (if isspace c then 32 # collapse_ws (dropWhile isspace cs) else c # collapse_ws cs)"
  by pat_completeness auto
termination
  by (relation "measure length") (auto simp: length_dropWhile_le less_Suc_eq_le)

text \<open>A string as \<open>re.sub(r"\s+", " ", s)\<close> leaves it: its only whitespace is single
  spaces.\<close>

fun collapsed :: "pystr \<Rightarrow> bool" where
  "collapsed [] = True"
| "collapsed (c # cs) =
     ((isspace c \<longrightarrow> c = 32 \<and> (cs = [] \<or> \<not> isspace (hd cs))) \<and> collapsed cs)"

definition startswith :: "pystr \<Rightarrow> pystr \<Rightarrow> bool" where
  "startswith s p = prefix p s"

text \<open>\<open>str(n)\<close> for a non-negative integer: its decimal digits.\<close>

function str_nat :: "nat \<Rightarrow> pystr" where
  "str_nat n = (if n < 10 then [48 + n] else str_nat (n div 10) @ [48 + n mod 10])"
  by pat_completeness auto
termination
  by (relation "measure id") auto

section \<open>The document tree\<close>

text \<open>
  A node of a parsed document, as the parser library hands it back: an element with its
  tag name, its attributes in order and its children in order, a text node, or a comment.
  An attribute value is a string, or a list of strings for the attributes the library
  splits on whitespace (\<open>class\<close>, \<open>rel\<close>). The attribute dictionary is an association
  list; a parsed document object is an element named \<open>[document]\<close>.
\<close>

datatype attr_value = Str pystr | Lst "pystr list"

type_synonym attrs = "(pystr \<times> attr_value) list"

datatype node =
    Tag pystr attrs "node list"
  | NavigableString pystr
  | Comment pystr

type_synonym path = "nat list"

fun is_Tag :: "node \<Rightarrow> bool" where
  "is_Tag (Tag n a cs) = True"
| "is_Tag _ = False"

fun is_Comment :: "node \<Rightarrow> bool" where
  "is_Comment (Comment s) = True"
| "is_Comment _ = False"

fun tag_name :: "node \<Rightarrow> pystr" where
  "tag_name (Tag n a cs) = n"
| "tag_name _ = []"

fun tag_attrs :: "node \<Rightarrow> attrs" where
  "tag_attrs (Tag n a cs) = a"
| "tag_attrs _ = []"

fun named :: "pystr \<Rightarrow> node \<Rightarrow> bool" where
  "named nm (Tag n a cs) = (n = nm)"
| "named nm _ = False"

text \<open>\<open>tag.descendants\<close>: every node below the tag in document order, the tag itself
  excluded. \<open>find_all\<close> and \<open>find\<close> search these.\<close>

fun descendants :: "node \<Rightarrow> node list" where
  "descendants (Tag n a cs) = concat (map (\<lambda>c. c # descendants c) cs)"
| "descendants _ = []"

fun children :: "node \<Rightarrow> node list" where
  "children (Tag n a cs) = cs"
| "children _ = []"

definition find_all :: "pystr \<Rightarrow> node \<Rightarrow> node list" where
  "find_all nm t = filter (named nm) (descendants t)"

definition find_first :: "pystr \<Rightarrow> node \<Rightarrow> node option" where
  "find_first nm t = List.find (named nm) (descendants t)"

definition find_child :: "pystr \<Rightarrow> node \<Rightarrow> node option" where
  "find_child nm t = List.find (named nm) (children t)"

text \<open>\<open>tag.get(k)\<close> is \<open>map_of\<close> on the attributes; a value is truthy when it is a
  non-empty string or a non-empty list.\<close>

fun truthy :: "attr_value option \<Rightarrow> bool" where
  "truthy None = False"
| "truthy (Some (Str s)) = (s \<noteq> [])"
| "truthy (Some (Lst l)) = (l \<noteq> [])"

fun set_attr :: "pystr \<Rightarrow> attr_value \<Rightarrow> node \<Rightarrow> node" where
  "set_attr k v (Tag n a cs) = Tag n (AList.update k v a) cs"
| "set_attr k v t = t"

fun del_attr :: "pystr \<Rightarrow> node \<Rightarrow> node" where
  "del_attr k (Tag n a cs) = Tag n (AList.delete k a) cs"
| "del_attr k t = t"

section \<open>External collaborators\<close>

text \<open>
  The libraries the program calls are parameters of the model, gathered in one record:
  \<^item> \<open>html5lib\<close> and \<open>html_parser\<close>: \<open>BeautifulSoup(str(tag), "html5lib")\<close> and
    \<open>BeautifulSoup(str(tag), "html.parser")\<close>, the document object obtained by serialising a
    tree and parsing the markup again. The markup of a tree is represented by the tree;
  \<^item> \<open>str_of\<close>: \<open>str(tag)\<close> where the program compares or sorts the markup itself;
  \<^item> \<open>set_iter\<close>: the order in which \<open>for tag in found_tags\<close> yields the elements of
    the set, given the document and the elements in the order they were added;
  \<^item> \<open>MinHash\<close>, \<open>lsh_query\<close>: the sketch of a set of shingles, and the query of the
    index holding the inserted (key, sketch) pairs;
  \<^item> \<open>Simhash\<close>, \<open>distance\<close>: the fingerprint of a token sequence and the Hamming
    distance of two fingerprints;
  \<^item> \<open>re_word\<close>, \<open>re_same\<close>: the Unicode tables of the module \<open>re\<close>: whether a
    character is a word character (\<open>\w\<close>), and whether a character of the text matches a
    character of the pattern under the flag \<open>re.I\<close>.
\<close>

record ('mh, 'sh) ext =
  html5lib :: "node \<Rightarrow> node"
  html_parser :: "node \<Rightarrow> node"
  str_of :: "node \<Rightarrow> pystr"
  set_iter :: "node \<Rightarrow> path list \<Rightarrow> path list"
  MinHash :: "pystr set \<Rightarrow> 'mh"
  lsh_query :: "(pystr \<times> 'mh) list \<Rightarrow> 'mh \<Rightarrow> pystr list"
  Simhash :: "pystr list \<Rightarrow> 'sh"
  distance :: "'sh \<Rightarrow> 'sh \<Rightarrow> nat"
  re_word :: "nat \<Rightarrow> bool"
  re_same :: "nat \<Rightarrow> nat \<Rightarrow> bool"

section \<open>Canonicalizer\<close>

text \<open>
  \<open>STATEFUL_CLASSES = re.compile(r"\b(active|current|open|show|selected|aria-current)\b", re.I)\<close>.
  \<open>search\<close> succeeds when, at some position of the token, one of the words matches
  character by character without regard to case, with a word boundary before its first
  and after its last character. A word boundary lies between two neighbouring positions
  of which exactly one holds a word character; the positions before the start and after
  the end of the token hold none.
\<close>

definition STATEFUL_WORDS :: "pystr list" where
  "STATEFUL_WORDS =
     [py ''active'', py ''current'', py ''open'', py ''show'', py ''selected'', py ''aria-current'']"

definition boundary :: "('mh, 'sh) ext \<Rightarrow> nat option \<Rightarrow> nat option \<Rightarrow> bool" where
  "boundary E l r \<longleftrightarrow>
     (case l of None \<Rightarrow> False | Some c \<Rightarrow> re_word E c) \<noteq>
     (case r of None \<Rightarrow> False | Some c \<Rightarrow> re_word E c)"

definition match_here :: "('mh, 'sh) ext \<Rightarrow> nat option \<Rightarrow> pystr \<Rightarrow> bool" where
  "match_here E prev s \<longleftrightarrow>
     (\<exists>w \<in> set STATEFUL_WORDS.
        list_all2 (re_same E) (take (length w) s) w \<and>
        boundary E prev (Some (hd s)) \<and>
        boundary E (Some (last (take (length w) s)))
          (case drop (length w) s of [] \<Rightarrow> None | c # _ \<Rightarrow> Some c))"

fun search_from :: "('mh, 'sh) ext \<Rightarrow> nat option \<Rightarrow> pystr \<Rightarrow> bool" where
  "search_from E prev [] = False"
| "search_from E prev (c # cs) = (match_here E prev (c # cs) \<or> search_from E (Some c) cs)"

definition STATEFUL_CLASSES_search :: "('mh, 'sh) ext \<Rightarrow> pystr \<Rightarrow> bool" where
  "STATEFUL_CLASSES_search E c = search_from E None c"

definition DROP_ATTRS :: "pystr list" where
  "DROP_ATTRS = [py ''onclick'', py ''onload'', py ''style'']"

definition KEEP_ATTRS :: "pystr list" where
  "KEEP_ATTRS =
     [py ''class'', py ''role'', py ''aria-label'', py ''aria-labelledby'', py ''href'', py ''src'',
      py ''id'']"

text \<open>The set literal \<open>stateful\<close> inside \<open>_canonicalize\<close>.\<close>

definition stateful :: "pystr list" where
  "stateful =
     [py ''active'', py ''show'', py ''current'', py ''open'', py ''selected'', py ''collapsing'']"

text \<open>Iterating \<open>el["class"]\<close>: the tokens of a list value, the characters of a string
  value.\<close>

fun class_tokens :: "attr_value \<Rightarrow> pystr list" where
  "class_tokens (Lst l) = l"
| "class_tokens (Str s) = map (\<lambda>c. [c]) s"

definition canon_class :: "('mh, 'sh) ext \<Rightarrow> attrs \<Rightarrow> attrs" where
  "canon_class E a =
     (case map_of a (py ''class'') of
        None \<Rightarrow> a
      | Some v \<Rightarrow>
          (let cls = sort (filter (\<lambda>c. \<not> STATEFUL_CLASSES_search E c \<and> c \<notin> set stateful)
                            (class_tokens v))
           in if cls \<noteq> [] then AList.update (py ''class'') (Lst cls) a
              else AList.delete (py ''class'') a))"

text \<open>The first branch of the attribute loop: a fragment link to normalise.\<close>

fun is_anchor :: "pystr \<times> attr_value \<Rightarrow> bool" where
  "is_anchor (attr, Str v) =
     (attr \<in> set [py ''href'', py ''data-bs-target''] \<and> startswith v (py ''#''))"
| "is_anchor (attr, Lst l) = False"

text \<open>The two \<open>elif\<close> branches: an attribute to delete.\<close>

definition is_dropped :: "pystr \<Rightarrow> bool" where
  "is_dropped attr \<longleftrightarrow>
     attr \<in> set [py ''id'', py ''aria-controls'', py ''aria-expanded'', py ''data-bs-toggle''] \<or>
     attr \<in> set DROP_ATTRS \<or>
     (startswith attr (py ''data-'') \<and> attr \<notin> set KEEP_ATTRS)"

definition attrs_to_normalize :: "attrs \<Rightarrow> attrs" where
  "attrs_to_normalize a = map (\<lambda>(attr, value). (attr, Str (py ''#''))) (filter is_anchor a)"

definition attrs_to_delete :: "attrs \<Rightarrow> pystr list" where
  "attrs_to_delete a = map fst (filter (\<lambda>kv. \<not> is_anchor kv \<and> is_dropped (fst kv)) a)"

text \<open>The body of the loop over the elements: the class attribute, then the deletions,
  then the normalised values.\<close>

definition canon_attrs :: "('mh, 'sh) ext \<Rightarrow> attrs \<Rightarrow> attrs" where
  "canon_attrs E a =
     (let a1 = canon_class E a;
          a2 = fold AList.delete (attrs_to_delete a1) a1
      in fold (\<lambda>(attr, new_val). AList.update attr new_val) (attrs_to_normalize a1) a2)"

fun canon_el :: "('mh, 'sh) ext \<Rightarrow> node \<Rightarrow> node" where
  "canon_el E (Tag n a cs) = Tag n (canon_attrs E a) (map (canon_el E) cs)"
| "canon_el E t = t"

text \<open>\<open>for el in list(root_tag_in_copy.find_all(True))\<close>: \<open>find_all\<close> yields the
  descendants of the root, not the root.\<close>

fun canon_descendants :: "('mh, 'sh) ext \<Rightarrow> node \<Rightarrow> node" where
  "canon_descendants E (Tag n a cs) = Tag n a (map (canon_el E) cs)"
| "canon_descendants E t = t"

text \<open>The first loop: every comment below the root is extracted.\<close>

fun remove_comments :: "node \<Rightarrow> node" where
  "remove_comments (Tag n a cs) = Tag n a (map remove_comments (filter (\<lambda>c. \<not> is_Comment c) cs))"
| "remove_comments t = t"

text \<open>The last loop: every string below the root is replaced by its text with whitespace
  collapsed and trimmed, or removed when nothing is left. A comment is a string too (the
  first loop has removed them all by then).\<close>

definition normalized_text :: "pystr \<Rightarrow> node list" where
  "normalized_text s =
     (let nt = strip (collapse_ws s) in if nt \<noteq> [] then [NavigableString nt] else [])"

fun normalize_strings :: "node \<Rightarrow> node list" where
  "normalize_strings (Tag n a cs) = [Tag n a (concat (map normalize_strings cs))]"
| "normalize_strings (NavigableString s) = normalized_text s"
| "normalize_strings (Comment s) = normalized_text s"

fun normalize_root :: "node \<Rightarrow> node" where
  "normalize_root (Tag n a cs) = Tag n a (concat (map normalize_strings cs))"
| "normalize_root t = t"

definition canon_root :: "('mh, 'sh) ext \<Rightarrow> node \<Rightarrow> node" where
  "canon_root E r = normalize_root (canon_descendants E (remove_comments r))"

text \<open>\<open>_canonicalize\<close>: the copy is parsed from the markup of the tag, its root is looked
  up among the top-level nodes of the copy, and \<open>None\<close> is returned when it is missing.\<close>

definition canonicalize :: "('mh, 'sh) ext \<Rightarrow> node \<Rightarrow> node option" where
  "canonicalize E tag =
     (case find_child (tag_name tag) (html_parser E tag) of
        None \<Rightarrow> None
      | Some root_tag_in_copy \<Rightarrow> Some (canon_root E root_tag_in_copy))"

section \<open>Similarity\<close>

text \<open>\<open>_get_node_size\<close>: the elements below the tag plus the strings below it that are not
  blank (a comment is a string).\<close>

fun nonblank_string :: "node \<Rightarrow> bool" where
  "nonblank_string (Tag n a cs) = False"
| "nonblank_string (NavigableString s) = (strip s \<noteq> [])"
| "nonblank_string (Comment s) = (strip s \<noteq> [])"

definition get_node_size :: "node \<Rightarrow> nat" where
  "get_node_size tag =
     length (filter is_Tag (descendants tag)) + length (filter nonblank_string (descendants tag))"

text \<open>\<open>_get_structural_paths\<close>: the tag names from the root to every element without
  element children.\<close>

fun get_paths :: "node \<Rightarrow> pystr list \<Rightarrow> pystr list list" where
  "get_paths (Tag n a cs) pfx =
     (if filter is_Tag cs = [] then [pfx @ [n]]
      else concat (map (\<lambda>c. get_paths c (pfx @ [n])) (filter is_Tag cs)))"
| "get_paths t pfx = []"

text \<open>\<open>">".join(p[i:i + 3])\<close> for \<open>i\<close> in \<open>range(len(p) - 3 + 1)\<close>.\<close>

definition windows :: "pystr list \<Rightarrow> pystr list" where
  "windows p =
     (if length p \<ge> 3
      then map (\<lambda>i. p ! i @ py ''>'' @ p ! (i + 1) @ py ''>'' @ p ! (i + 2)) [0 ..< length p - 3 + 1]
      else [])"

definition shingles :: "node \<Rightarrow> pystr set" where
  "shingles tag = set (concat (map windows (get_paths tag [])))"

definition get_minhash :: "('mh, 'sh) ext \<Rightarrow> node \<Rightarrow> 'mh" where
  "get_minhash E tag = MinHash E (shingles tag)"

definition get_simhash :: "('mh, 'sh) ext \<Rightarrow> node \<Rightarrow> 'sh" where
  "get_simhash E tag = Simhash E (map tag_name (filter is_Tag (descendants tag)))"

section \<open>Positions in the live tree\<close>

text \<open>
  The program mutates the elements of the parsed document in place. An element of the
  live tree is identified by its path from the document object (the index of the child
  to take at each level).
\<close>

fun subtree_at :: "node \<Rightarrow> path \<Rightarrow> node option" where
  "subtree_at t [] = Some t"
| "subtree_at (Tag n a cs) (i # p) = (if i < length cs then subtree_at (cs ! i) p else None)"
| "subtree_at t (i # p) = None"

fun update_at :: "(node \<Rightarrow> node) \<Rightarrow> path \<Rightarrow> node \<Rightarrow> node" where
  "update_at f [] t = f t"
| "update_at f (i # p) (Tag n a cs) =
     (if i < length cs then Tag n a (cs[i := update_at f p (cs ! i)]) else Tag n a cs)"
| "update_at f (i # p) t = t"

text \<open>The paths of the nodes below a node, in document order.\<close>

fun walk :: "path \<Rightarrow> node \<Rightarrow> path list"
  and walk_list :: "path \<Rightarrow> nat \<Rightarrow> node list \<Rightarrow> path list" where
  "walk p (Tag n a cs) = walk_list p 0 cs"
| "walk p (NavigableString s) = []"
| "walk p (Comment s) = []"
| "walk_list p i [] = []"
| "walk_list p i (c # cs) = (p @ [i]) # walk (p @ [i]) c @ walk_list p (Suc i) cs"

text \<open>\<open>find_all\<close> and \<open>find\<close> on the live tree, as paths: the nodes below the node at
  \<open>p\<close> that satisfy \<open>P\<close>.\<close>

definition holds_at :: "node \<Rightarrow> (node \<Rightarrow> bool) \<Rightarrow> path \<Rightarrow> bool" where
  "holds_at soup P q = (case subtree_at soup q of None \<Rightarrow> False | Some t \<Rightarrow> P t)"

definition paths_below :: "node \<Rightarrow> path \<Rightarrow> path list" where
  "paths_below soup p = (case subtree_at soup p of None \<Rightarrow> [] | Some t \<Rightarrow> walk p t)"

definition find_all_paths :: "node \<Rightarrow> path \<Rightarrow> (node \<Rightarrow> bool) \<Rightarrow> path list" where
  "find_all_paths soup p P = filter (holds_at soup P) (paths_below soup p)"

definition child_paths :: "node \<Rightarrow> path \<Rightarrow> path list" where
  "child_paths soup p =
     (case subtree_at soup p of None \<Rightarrow> [] | Some t \<Rightarrow> map (\<lambda>i. p @ [i]) [0 ..< length (children t)])"

definition find_path :: "node \<Rightarrow> (node \<Rightarrow> bool) \<Rightarrow> path option" where
  "find_path soup P = List.find (holds_at soup P) (walk [] soup)"

section \<open>CandidateMiner\<close>

definition MIN_NODE_COUNT :: nat where
  "MIN_NODE_COUNT = 30"

definition PRIORITY_TAGS :: "pystr list" where
  "PRIORITY_TAGS = [py ''header'', py ''nav'', py ''footer'', py ''aside'']"

definition marker :: pystr where
  "marker = py ''data-refactor-id''"

text \<open>The tuple stored in \<open>self.items\<close>, with the names it is unpacked under. The raw
  markup \<open>str(tag)\<close> is kept as the tree it serialises, as it was when it was captured.\<close>

record ('mh, 'sh) item =
  source_page :: pystr
  raw_tag_html :: node
  canonical_tag :: node
  mh :: 'mh
  simh :: 'sh

text \<open>The fields of \<open>HtmlRefactorer\<close> that mining writes: the candidates by key (a
  dictionary, in insertion order), the pairs inserted into the index, and the tagged
  document of every page that was processed.\<close>

record ('mh, 'sh) refactorer =
  items :: "(pystr \<times> ('mh, 'sh) item) list"
  lsh :: "(pystr \<times> 'mh) list"
  soups :: "(pystr \<times> node) list"

definition big_enough :: "node \<Rightarrow> bool" where
  "big_enough el \<longleftrightarrow> get_node_size el \<ge> MIN_NODE_COUNT"

text \<open>\<open>body = soup.body or soup\<close>.\<close>

definition body_path :: "node \<Rightarrow> path" where
  "body_path soup = (case find_path soup (named (py ''body'')) of Some p \<Rightarrow> p | None \<Rightarrow> [])"

text \<open>The elements the two loops add to \<open>found_tags\<close>, in the order they are added.\<close>

definition found_candidates :: "node \<Rightarrow> path list" where
  "found_candidates soup =
     concat (map (\<lambda>tag_name. find_all_paths soup (body_path soup)
                    (\<lambda>el. named tag_name el \<and> big_enough el)) PRIORITY_TAGS) @
     filter (holds_at soup (\<lambda>el. (named (py ''div'') el \<or> named (py ''section'') el) \<and> big_enough el))
       (child_paths soup (body_path soup))"

text \<open>\<open>found_tags.add(el)\<close>: the library compares elements by name, attributes and
  contents, so an element equal to one already in the set is not added.\<close>

definition set_add :: "node \<Rightarrow> path list \<Rightarrow> path \<Rightarrow> path list" where
  "set_add soup found q =
     (if \<exists>r \<in> set found. subtree_at soup r = subtree_at soup q then found else found @ [q])"

definition found_tags :: "node \<Rightarrow> path list" where
  "found_tags soup = fold (\<lambda>q found. set_add soup found q) (found_candidates soup) []"

definition key_of :: "nat \<Rightarrow> pystr" where
  "key_of idx = py ''c_'' @ str_nat idx"

text \<open>
  The loop \<open>for tag in found_tags\<close> of one document. The result is the tagged document
  (\<open>None\<close> when an exception left the loop: \<open>_canonicalize\<close> raises when the copy parsed
  by html5lib holds no element of the tag's name), the counter and the refactorer, which
  keep what was written before the exception.
\<close>

fun mine_tags ::
  "('mh, 'sh) ext \<Rightarrow> pystr \<Rightarrow> path list \<Rightarrow> node \<Rightarrow> nat \<Rightarrow> ('mh, 'sh) refactorer \<Rightarrow>
     node option \<times> nat \<times> ('mh, 'sh) refactorer" where
  "mine_tags E html_path [] soup idx st = (Some soup, idx, st)"
| "mine_tags E html_path (q # qs) soup idx st =
     (let key = key_of idx;
          soup' = update_at (set_attr marker (Str key)) q soup
      in case subtree_at soup' q of
           None \<Rightarrow> (None, idx, st)
         | Some tag \<Rightarrow>
             (case find_first (tag_name tag) (html5lib E tag) of
                None \<Rightarrow> (None, idx, st)
              | Some tag_copy \<Rightarrow>
                  (case canonicalize E (del_attr marker tag_copy) of
                     None \<Rightarrow> mine_tags E html_path qs soup' idx st
                   | Some canonical \<Rightarrow>
                       mine_tags E html_path qs soup' (idx + 1)
                         (st\<lparr>lsh := lsh st @ [(key, get_minhash E canonical)],
                             items := AList.update key
                               \<lparr>source_page = html_path, raw_tag_html = tag,
                                canonical_tag = canonical, mh = get_minhash E canonical,
                                simh = get_simhash E canonical\<rparr> (items st)\<rparr>))))"

text \<open>The loop over \<open>self.all_html_files\<close>; a document is stored in \<open>self.soups\<close> only
  when its loop ended without an exception.\<close>

fun mine_docs ::
  "('mh, 'sh) ext \<Rightarrow> (pystr \<times> node) list \<Rightarrow> nat \<Rightarrow> ('mh, 'sh) refactorer \<Rightarrow>
     ('mh, 'sh) refactorer" where
  "mine_docs E [] idx st = st"
| "mine_docs E ((html_path, soup) # docs) idx st =
     (case mine_tags E html_path (set_iter E soup (found_tags soup)) soup idx st of
        (None, idx', st') \<Rightarrow> mine_docs E docs idx' st'
      | (Some soup', idx', st') \<Rightarrow>
          mine_docs E docs idx' (st'\<lparr>soups := AList.update html_path soup' (soups st')\<rparr>))"

definition init :: "('mh, 'sh) refactorer" where
  "init = \<lparr>items = [], lsh = [], soups = []\<rparr>"

definition mine_and_tag_candidates ::
  "('mh, 'sh) ext \<Rightarrow> (pystr \<times> node) list \<Rightarrow> ('mh, 'sh) refactorer" where
  "mine_and_tag_candidates E docs = mine_docs E docs 0 init"







section \<open>ClusterBuilder\<close>

datatype error = KeyError | AttributeError | IndexError

definition SIMHASH_DISTANCE :: nat where
  "SIMHASH_DISTANCE = 6"

definition NODE_COUNT_SIMILARITY :: real where
  "NODE_COUNT_SIMILARITY = 85 / 100"

type_synonym ('mh, 'sh) cluster = "(pystr \<times> ('mh, 'sh) item) list"

text \<open>
  The inner loop \<open>for nk in near_keys\<close>. The quotient of the two sizes is Python's float
  division compared with the float \<open>0.85\<close>; it is modelled in exact arithmetic, which
  gives the same verdict for all sizes below \<open>2 ^ 49\<close>.
\<close>

fun cluster_near ::
  "('mh, 'sh) ext \<Rightarrow> (pystr \<times> ('mh, 'sh) item) list \<Rightarrow> pystr \<Rightarrow> ('mh, 'sh) item \<Rightarrow>
     pystr list \<Rightarrow> pystr set \<Rightarrow> ('mh, 'sh) cluster \<Rightarrow>
     error + (('mh, 'sh) cluster \<times> pystr set)" where
  "cluster_near E its key seed [] visited cluster = Inr (cluster, visited)"
| "cluster_near E its key seed (nk # near_keys) visited cluster =
     (if nk = key \<or> nk \<in> visited then cluster_near E its key seed near_keys visited cluster
      else case map_of its nk of
        None \<Rightarrow> Inl KeyError
      | Some near \<Rightarrow>
          if distance E (simh seed) (simh near) > SIMHASH_DISTANCE
          then cluster_near E its key seed near_keys visited cluster
          else
            (let n1 = get_node_size (canonical_tag seed);
                 n2 = get_node_size (canonical_tag near)
             in if n1 > 0 \<and> n2 > 0 \<and> real (min n1 n2) / real (max n1 n2) < NODE_COUNT_SIMILARITY
                then cluster_near E its key seed near_keys visited cluster
                else cluster_near E its key seed near_keys (insert nk visited)
                       (cluster @ [(nk, near)])))"

text \<open>The outer loop \<open>for key in sorted_keys\<close>.\<close>

fun cluster_loop ::
  "('mh, 'sh) ext \<Rightarrow> ('mh, 'sh) refactorer \<Rightarrow> pystr list \<Rightarrow> pystr set \<Rightarrow>
     ('mh, 'sh) cluster list \<Rightarrow> error + ('mh, 'sh) cluster list" where
  "cluster_loop E st [] visited clusters = Inr clusters"
| "cluster_loop E st (key # keys) visited clusters =
     (if key \<in> visited then cluster_loop E st keys visited clusters
      else case map_of (items st) key of
        None \<Rightarrow> Inl KeyError
      | Some seed \<Rightarrow>
          (case cluster_near E (items st) key seed (lsh_query E (lsh st) (mh seed))
                  (insert key visited) [(key, seed)] of
             Inl e \<Rightarrow> Inl e
           | Inr (cluster, visited') \<Rightarrow>
               cluster_loop E st keys visited'
                 (if length cluster > 1 then clusters @ [cluster] else clusters)))"

text \<open>\<open>sorted_keys = sorted(self.items.keys())\<close>: the keys are strings.\<close>

definition sorted_keys :: "('mh, 'sh) refactorer \<Rightarrow> pystr list" where
  "sorted_keys st = sort (map fst (items st))"

definition cluster_candidates ::
  "('mh, 'sh) ext \<Rightarrow> ('mh, 'sh) refactorer \<Rightarrow> error + ('mh, 'sh) cluster list" where
  "cluster_candidates E st = cluster_loop E st (sorted_keys st) {} []"

text \<open>The test a matched candidate passes to enter the cluster of a seed: neither
  \<open>continue\<close> of the inner loop is taken.\<close>

definition accepted :: "('mh, 'sh) ext \<Rightarrow> ('mh, 'sh) item \<Rightarrow> ('mh, 'sh) item \<Rightarrow> bool" where
  "accepted E seed near \<longleftrightarrow>
     \<not> distance E (simh seed) (simh near) > SIMHASH_DISTANCE \<and>
     \<not> (get_node_size (canonical_tag seed) > 0 \<and> get_node_size (canonical_tag near) > 0 \<and>
        real (min (get_node_size (canonical_tag seed)) (get_node_size (canonical_tag near))) /
        real (max (get_node_size (canonical_tag seed)) (get_node_size (canonical_tag near)))
          < NODE_COUNT_SIMILARITY)"

text \<open>What the outer loop adds to the clusters: every new cluster is a seed, taken from
  the keys in their order and not visited before, followed by at least one accepted
  candidate, and no key occurs twice.\<close>

definition well_clustered ::
  "('mh, 'sh) ext \<Rightarrow> ('mh, 'sh) refactorer \<Rightarrow> pystr list \<Rightarrow> pystr set \<Rightarrow>
     ('mh, 'sh) cluster list \<Rightarrow> bool" where
  "well_clustered E st keys visited new \<longleftrightarrow>
     subseq (map (\<lambda>c. fst (hd c)) new) keys \<and>
     distinct (concat (map (map fst) new)) \<and>
     set (concat (map (map fst) new)) \<inter> visited = {} \<and>
     (\<forall>c \<in> set new. 2 \<le> length c \<and>
        (\<forall>(nk, near) \<in> set (tl c). accepted E (snd (hd c)) near))"

section \<open>PartialEmitter and Rewriter\<close>

text \<open>An entry of \<open>final_clusters_info\<close>, with the markup written to the partial file
  (\<open>write_partial\<close> writes its pretty-printed form) and the instances as pairs of
  \<open>refactor_id\<close> and \<open>source_file\<close>.\<close>

record partial_info =
  partial_file :: pystr
  template :: node
  instances :: "(pystr \<times> pystr) list"

definition partial_name :: "nat \<Rightarrow> pystr \<Rightarrow> pystr" where
  "partial_name i nm = py ''partial_'' @ str_nat (i + 1) @ py ''_'' @ nm @ py ''.html''"

text \<open>The body of the loop of \<open>_extract_partials\<close> for the cluster at index \<open>i\<close>:
  \<open>None\<close> when the cluster is skipped; \<open>cluster[0]\<close> on an empty cluster and
  \<open>medoid_template.name\<close> on a parse without an element raise.\<close>

definition extract_one ::
  "('mh, 'sh) ext \<Rightarrow> nat \<Rightarrow> ('mh, 'sh) cluster \<Rightarrow> error + partial_info option" where
  "extract_one E i cluster =
     (case cluster of
        [] \<Rightarrow> Inl IndexError
      | (medoid_key, medoid_data) # _ \<Rightarrow>
          if \<not> is_Tag (canonical_tag medoid_data) then Inr None
          else
            (case List.find is_Tag (descendants (html_parser E (raw_tag_html medoid_data))) of
               None \<Rightarrow> Inl AttributeError
             | Some medoid_template \<Rightarrow>
                 Inr (Some \<lparr>partial_file = partial_name i (tag_name medoid_template),
                            template = del_attr marker medoid_template,
                            instances = map (\<lambda>(key, it). (key, source_page it)) cluster\<rparr>)))"

fun extract_loop ::
  "('mh, 'sh) ext \<Rightarrow> nat \<Rightarrow> ('mh, 'sh) cluster list \<Rightarrow> error + partial_info list" where
  "extract_loop E i [] = Inr []"
| "extract_loop E i (cluster # clusters) =
     (case extract_one E i cluster of
        Inl e \<Rightarrow> Inl e
      | Inr r \<Rightarrow>
          (case extract_loop E (i + 1) clusters of
             Inl e \<Rightarrow> Inl e
           | Inr infos \<Rightarrow> Inr (case r of None \<Rightarrow> infos | Some info \<Rightarrow> info # infos)))"

definition extract_partials ::
  "('mh, 'sh) ext \<Rightarrow> ('mh, 'sh) cluster list \<Rightarrow> error + partial_info list" where
  "extract_partials E clusters = extract_loop E 0 clusters"

text \<open>\<open>create_include_statement(filename)\<close> without parameters; 39 is the quote
  character.\<close>

definition create_include_statement :: "pystr \<Rightarrow> pystr" where
  "create_include_statement filename =
     py ''@@include('' @ [39] @ py ''./partials/'' @ filename @ [39] @ py '')''"

text \<open>\<open>BeautifulSoup(include_stmt, "html.parser")\<close>: a document object holding the
  statement as its text (the statement has no markup in it).\<close>

definition include_soup :: "pystr \<Rightarrow> node" where
  "include_soup stmt = Tag (py ''[document]'') [] [NavigableString stmt]"

text \<open>\<open>target.replace_with(new)\<close> for a document object \<open>new\<close>: the target is taken
  out of its parent and the children of \<open>new\<close> are inserted in its place, one by one (the
  library never puts a document object inside a tree). The target is given by its path;
  the document object itself has no parent and cannot be a target.\<close>

fun replace_with :: "node \<Rightarrow> path \<Rightarrow> node \<Rightarrow> node" where
  "replace_with new [] t = t"
| "replace_with new [i] (Tag n a cs) =
     (if i < length cs then Tag n a (take i cs @ children new @ drop (Suc i) cs) else Tag n a cs)"
| "replace_with new (i # j # p) (Tag n a cs) =
     (if i < length cs then Tag n a (cs[i := replace_with new (j # p) (cs ! i)]) else Tag n a cs)"
| "replace_with new (i # p) t = t"

text \<open>\<open>soup.find(attrs={"data-refactor-id": ref_id})\<close> and \<open>target.replace_with\<close>: the
  first element in document order that carries the marker with this value is replaced;
  without such an element nothing is done.\<close>

definition marked :: "pystr \<Rightarrow> node \<Rightarrow> bool" where
  "marked ref_id t \<longleftrightarrow> map_of (tag_attrs t) marker = Some (Str ref_id)"

definition replace_instance :: "pystr \<Rightarrow> pystr \<Rightarrow> node \<Rightarrow> node" where
  "replace_instance include_stmt ref_id soup =
     (case find_path soup (marked ref_id) of
        None \<Rightarrow> soup
      | Some target \<Rightarrow> replace_with (include_soup include_stmt) target soup)"

text \<open>The loops over the clusters and their instances for the document \<open>p\<close>.\<close>

definition replace_cluster :: "pystr \<Rightarrow> partial_info \<Rightarrow> node \<Rightarrow> node" where
  "replace_cluster p cluster soup =
     fold (\<lambda>(ref_id, source_file) soup.
             if source_file = p
             then replace_instance (create_include_statement (partial_file cluster)) ref_id soup
             else soup)
          (instances cluster) soup"

definition replace_clusters :: "partial_info list \<Rightarrow> pystr \<Rightarrow> node \<Rightarrow> node" where
  "replace_clusters clusters p soup = fold (replace_cluster p) clusters soup"

text \<open>The stages from mining to the replacement of the cluster instances: the partials
  written and the documents with every instance replaced (the rewrite of the head and of
  the footer scripts, which follows in \<open>_replace_in_files\<close>, is not part of it).\<close>

definition run ::
  "('mh, 'sh) ext \<Rightarrow> (pystr \<times> node) list \<Rightarrow> error + partial_info list \<times> (pystr \<times> node) list" where
  "run E docs =
     (let st = mine_and_tag_candidates E docs
      in case cluster_candidates E st of
           Inl e \<Rightarrow> Inl e
         | Inr clusters \<Rightarrow>
             (case extract_partials E clusters of
                Inl e \<Rightarrow> Inl e
              | Inr infos \<Rightarrow>
                  Inr (infos, map (\<lambda>(p, soup). (p, replace_clusters infos p soup)) (soups st))))"

section \<open>HeadFooterExtractor\<close>

text \<open>\<open>_longest_common_suffix\<close>: the loop over \<open>range(shortest)\<close> on the reversed
  strings; \<open>chars\<close> is the set of the characters at position \<open>i\<close>, as a list without
  repetition.\<close>

fun suffix_loop :: "'a list list \<Rightarrow> nat list \<Rightarrow> 'a list \<Rightarrow> 'a list" where
  "suffix_loop rv [] sfx = sfx"
| "suffix_loop rv (i # is) sfx =
     (let chars = remdups (map (\<lambda>s. s ! i) rv)
      in if length chars = 1 then suffix_loop rv is (sfx @ [hd chars]) else sfx)"

definition longest_common_suffix :: "'a list list \<Rightarrow> 'a list" where
  "longest_common_suffix strings =
     (if strings = [] then []
      else (let rv = map rev strings;
                shortest = Min (set (map length rv))
            in rev (suffix_loop rv [0 ..< shortest] [])))"

text \<open>\<open>tag.string\<close>: the single string child of a tag, looked up through single element
  children.\<close>

fun string_of :: "node \<Rightarrow> pystr option" where
  "string_of (Tag n a [c]) = string_of c"
| "string_of (Tag n a cs) = None"
| "string_of (NavigableString s) = Some s"
| "string_of (Comment s) = Some s"

definition title_of :: "node \<Rightarrow> pystr" where
  "title_of head =
     (case find_first (py ''title'') head of
        None \<Rightarrow> []
      | Some t \<Rightarrow> (case string_of t of None \<Rightarrow> [] | Some s \<Rightarrow> if s = [] then [] else strip s))"

text \<open>The four sets computed for one head, as lists of serialised elements.\<close>

definition metas :: "('mh, 'sh) ext \<Rightarrow> node \<Rightarrow> pystr list" where
  "metas E head =
     map (str_of E)
       (filter (\<lambda>m. \<not> truthy (map_of (tag_attrs m) (py ''charset''))) (find_all (py ''meta'') head))"

definition links :: "('mh, 'sh) ext \<Rightarrow> node \<Rightarrow> pystr list" where
  "links E head =
     map (str_of E)
       (filter (\<lambda>l. map_of (tag_attrs l) (py ''rel'') \<noteq> Some (Lst [py ''stylesheet'']))
          (find_all (py ''link'') head))"

definition styles :: "('mh, 'sh) ext \<Rightarrow> node \<Rightarrow> pystr list" where
  "styles E head = map (str_of E) (find_all (py ''style'') head)"

definition has_string :: "node \<Rightarrow> bool" where
  "has_string t \<longleftrightarrow> (case string_of t of None \<Rightarrow> False | Some s \<Rightarrow> s \<noteq> [])"

definition h_scripts :: "('mh, 'sh) ext \<Rightarrow> node \<Rightarrow> pystr list" where
  "h_scripts E head =
     map (str_of E)
       (filter (\<lambda>s. truthy (map_of (tag_attrs s) (py ''src'')) \<or> has_string s)
          (find_all (py ''script'') head))"

text \<open>\<open>set.intersection(*sets) if sets else set()\<close>, a set being a list without
  repetition (the result is sorted before it is used).\<close>

definition intersection :: "pystr list list \<Rightarrow> pystr list" where
  "intersection sets =
     (case sets of [] \<Rightarrow> [] | s # rest \<Rightarrow> filter (\<lambda>x. \<forall>t \<in> set rest. x \<in> set t) (remdups s))"

text \<open>The dictionaries \<open>rep_meta\<close>, \<open>rep_link\<close>, \<open>rep_style\<close>, \<open>rep_script\<close>: every element
  of the name in every head, keyed by its markup.\<close>

definition rep_of :: "('mh, 'sh) ext \<Rightarrow> pystr \<Rightarrow> node list \<Rightarrow> (pystr \<rightharpoonup> pystr)" where
  "rep_of E nm heads =
     fold (\<lambda>head rep. rep ++ map_of (rev (map (\<lambda>m. (str_of E m, str_of E m)) (find_all nm head))))
       heads Map.empty"

text \<open>\<open>[rep[k] for k in keys]\<close>; a missing key raises.\<close>

fun lookup_all :: "(pystr \<rightharpoonup> pystr) \<Rightarrow> pystr list \<Rightarrow> error + pystr list" where
  "lookup_all rep [] = Inr []"
| "lookup_all rep (k # ks) =
     (case rep k of
        None \<Rightarrow> Inl KeyError
      | Some v \<Rightarrow> (case lookup_all rep ks of Inl e \<Rightarrow> Inl e | Inr vs \<Rightarrow> Inr (v # vs)))"

text \<open>\<open>find_all("link", rel="stylesheet")\<close>: the library matches a list value when one
  of its tokens is the string.\<close>

fun rel_stylesheet :: "node \<Rightarrow> bool" where
  "rel_stylesheet t =
     (case map_of (tag_attrs t) (py ''rel'') of
        None \<Rightarrow> False
      | Some (Str v) \<Rightarrow> v = py ''stylesheet''
      | Some (Lst l) \<Rightarrow> py ''stylesheet'' \<in> set l)"

text \<open>\<open>body.find_all("script", src=True)\<close> with the value of \<open>src\<close> (a string: the
  attribute is not one the library splits).\<close>

definition src_of :: "node \<Rightarrow> pystr option" where
  "src_of s = (case map_of (tag_attrs s) (py ''src'') of Some (Str v) \<Rightarrow> Some v | _ \<Rightarrow> None)"

definition body_scripts :: "node \<Rightarrow> node list" where
  "body_scripts b = filter (\<lambda>s. src_of s \<noteq> None) (find_all (py ''script'') b)"

definition rep_script_footer :: "('mh, 'sh) ext \<Rightarrow> node list \<Rightarrow> (pystr \<rightharpoonup> pystr)" where
  "rep_script_footer E bodies =
     fold (\<lambda>b rep. fold (\<lambda>s rep. rep(the (src_of s) \<mapsto> str_of E s)) (body_scripts b) rep)
       bodies Map.empty"

text \<open>What \<open>_extract_common_head_and_footer\<close> writes: the lines of the three partial
  files (joined by newlines when written), \<open>self.page_titles\<close> and
  \<open>self.common_js_srcs\<close>.\<close>

record fragments =
  common_suffix :: pystr
  title_meta :: "pystr list"
  head_css :: "pystr list"
  footer_scripts :: "pystr list"
  page_titles :: "(pystr \<times> pystr) list"
  common_js_srcs :: "pystr list"

definition title_line :: "pystr \<Rightarrow> pystr" where
  "title_line sfx =
     (if sfx \<noteq> [] then py ''<title>{{ page_title }} '' @ sfx @ py ''</title>''
      else py ''<title>{{ page_title }}</title>'')"

text \<open>\<open>t[:len(t) - len(common_suffix)].strip(" |-") if common_suffix else t\<close>.\<close>

definition residual_title :: "pystr \<Rightarrow> pystr \<Rightarrow> pystr" where
  "residual_title sfx t =
     (if sfx \<noteq> [] then strip_chars (\<lambda>c. c \<in> set (py '' |-'')) (take (length t - length sfx) t)
      else t)"

definition heads_of :: "(pystr \<times> node) list \<Rightarrow> node list" where
  "heads_of docs = List.map_filter (\<lambda>(p, soup). find_first (py ''head'') soup) docs"

definition bodies_of :: "(pystr \<times> node) list \<Rightarrow> node list" where
  "bodies_of docs = List.map_filter (\<lambda>(p, soup). find_first (py ''body'') soup) docs"

definition first_stylesheets :: "('mh, 'sh) ext \<Rightarrow> (pystr \<times> node) list \<Rightarrow> pystr list" where
  "first_stylesheets E docs =
     (case docs of
        [] \<Rightarrow> []
      | (p, first_soup) # _ \<Rightarrow>
          (case find_first (py ''head'') first_soup of
             None \<Rightarrow> []
           | Some head \<Rightarrow> map (str_of E) (filter rel_stylesheet (find_all (py ''link'') head))))"

definition extract_common_head_and_footer ::
  "('mh, 'sh) ext \<Rightarrow> (pystr \<times> node) list \<Rightarrow> error + fragments" where
  "extract_common_head_and_footer E docs =
     (let heads = heads_of docs;
          titles = map title_of heads;
          common_metas = intersection (map (metas E) heads);
          common_links = intersection (map (links E) heads);
          common_styles = intersection (map (styles E) heads);
          common_head_scripts = intersection (map (h_scripts E) heads);
          sfx = longest_common_suffix titles;
          bodies = bodies_of docs;
          common_js = intersection (map (\<lambda>b. List.map_filter src_of (body_scripts b)) bodies)
      in case lookup_all (rep_of E (py ''meta'') heads) (sort common_metas) of Inl e \<Rightarrow> Inl e
         | Inr meta_lines \<Rightarrow>
      (case lookup_all (rep_of E (py ''link'') heads) (sort common_links) of Inl e \<Rightarrow> Inl e
         | Inr link_lines \<Rightarrow>
      (case lookup_all (rep_of E (py ''style'') heads) (sort common_styles) of Inl e \<Rightarrow> Inl e
         | Inr style_lines \<Rightarrow>
      (case lookup_all (rep_of E (py ''script'') heads) (sort common_head_scripts) of Inl e \<Rightarrow> Inl e
         | Inr script_lines \<Rightarrow>
      (case lookup_all (rep_script_footer E bodies) (sort common_js) of Inl e \<Rightarrow> Inl e
         | Inr footer_lines \<Rightarrow>
           Inr \<lparr>common_suffix = sfx,
                title_meta = [title_line sfx] @ meta_lines @ link_lines,
                head_css = first_stylesheets E docs @ style_lines @ script_lines,
                footer_scripts = footer_lines,
                page_titles = map (\<lambda>((p, soup), t). (p, residual_title sfx t)) (zip docs titles),
                common_js_srcs = common_js\<rparr>)))))"

section \<open>Concrete collaborators and documents\<close>

text \<open>
  Stand-ins for the libraries, used to run the model on concrete documents. Serialising a
  tree and parsing it again gives the tree back with adjacent strings merged into one
  (the markup of two adjacent strings is their concatenation); html5lib wraps a fragment
  in \<open>html\<close>, \<open>head\<close> and \<open>body\<close>. \<open>markup\<close> writes tags, attributes and text without
  escaping. The sketch of a set of shingles is the set, a query returns the keys inserted
  with an equal sketch, the fingerprint of a token sequence is the sequence, and two
  fingerprints are at distance 0 when equal and 64 otherwise. The set of found elements
  is iterated in the order of insertion.
\<close>

fun merge_strings :: "node list \<Rightarrow> node list" where
  "merge_strings (NavigableString a # NavigableString b # rest) =
     merge_strings (NavigableString (a @ b) # rest)"
| "merge_strings (x # rest) = x # merge_strings rest"
| "merge_strings [] = []"

fun smooth :: "node \<Rightarrow> node" where
  "smooth (Tag n a cs) = Tag n a (merge_strings (map smooth cs))"
| "smooth t = t"

definition soup_of :: "node list \<Rightarrow> node" where
  "soup_of cs = Tag (py ''[document]'') [] cs"

definition page :: "node list \<Rightarrow> node list \<Rightarrow> node" where
  "page head_nodes body_nodes =
     soup_of [Tag (py ''html'') [] [Tag (py ''head'') [] head_nodes, Tag (py ''body'') [] body_nodes]]"

fun join :: "pystr \<Rightarrow> pystr list \<Rightarrow> pystr" where
  "join sep [] = []"
| "join sep [x] = x"
| "join sep (x # y # ys) = x @ sep @ join sep (y # ys)"

fun attr_markup :: "pystr \<times> attr_value \<Rightarrow> pystr" where
  "attr_markup (k, Str v) = py '' '' @ k @ py ''='' @ [34] @ v @ [34]"
| "attr_markup (k, Lst l) = py '' '' @ k @ py ''='' @ [34] @ join (py '' '') l @ [34]"

fun markup :: "node \<Rightarrow> pystr" where
  "markup (Tag n a cs) =
     py ''<'' @ n @ concat (map attr_markup a) @ py ''>'' @ concat (map markup cs) @
     py ''</'' @ n @ py ''>''"
| "markup (NavigableString s) = s"
| "markup (Comment s) = py ''<!--'' @ s @ py ''-->''"

text \<open>The tables of \<open>re\<close> on the ASCII range: the word characters are the digits,
  the letters and the underscore, and a character matches a character of the pattern
  without regard to case when its lower-case form is that character.\<close>

definition isword :: "nat \<Rightarrow> bool" where
  "isword c \<longleftrightarrow> (48 \<le> c \<and> c \<le> 57) \<or> (65 \<le> c \<and> c \<le> 90) \<or> c = 95 \<or> (97 \<le> c \<and> c \<le> 122)"

definition lower :: "nat \<Rightarrow> nat" where
  "lower c = (if 65 \<le> c \<and> c \<le> 90 then c + 32 else c)"

definition E0 :: "(pystr set, pystr list) ext" where
  "E0 = \<lparr>html5lib = (\<lambda>t. page [] [smooth t]),
         html_parser = (\<lambda>t. soup_of [smooth t]),
         str_of = markup,
         set_iter = (\<lambda>soup found. found),
         MinHash = (\<lambda>S. S),
         lsh_query = (\<lambda>index m. map fst (filter (\<lambda>(k, m'). m' = m) index)),
         Simhash = (\<lambda>tokens. tokens),
         distance = (\<lambda>a b. if a = b then 0 else 64),
         re_word = isword,
         re_same = (\<lambda>c p. lower c = p)\<rparr>"

text \<open>A second run of the same program: the set of found elements is iterated in the
  opposite order.\<close>

definition E1 :: "(pystr set, pystr list) ext" where
  "E1 = E0\<lparr>set_iter := (\<lambda>soup found. rev found)\<rparr>"

text \<open>An element with thirty empty children, which is a candidate of size 30.\<close>

definition block :: "pystr \<Rightarrow> attrs \<Rightarrow> pystr \<Rightarrow> node" where
  "block nm a child = Tag nm a (replicate 30 (Tag child [] []))"

text \<open>Two pages with the same header and the same navigation bar.\<close>

definition two_pages :: "(pystr \<times> node) list" where
  "two_pages =
     [(py ''a.html'', page [] [block (py ''header'') [] (py ''span''), block (py ''nav'') [] (py ''li'')]),
      (py ''b.html'', page [] [block (py ''header'') [] (py ''span''), block (py ''nav'') [] (py ''li'')])]"

text \<open>A page whose header, marked \<open>c_0\<close>, encloses a navigation bar marked \<open>c_1\<close>, and
  the page after the header has been replaced by its include.\<close>

definition nested :: node where
  "nested =
     page [] [Tag (py ''header'') [(marker, Str (key_of 0))]
                [Tag (py ''nav'') [(marker, Str (key_of 1))] []]]"

definition nested_replaced :: node where
  "nested_replaced =
     replace_instance (create_include_statement (py ''partial_1_header.html'')) (key_of 0) nested"

text \<open>The titles of Scenario B (8212 is the em dash) and two pages that carry them.\<close>

definition home_title :: pystr where
  "home_title = py ''Home '' @ [8212] @ py '' Acme Inc.''"

definition about_title :: pystr where
  "about_title = py ''About '' @ [8212] @ py '' Acme Inc.''"

definition acme_pages :: "(pystr \<times> node) list" where
  "acme_pages =
     [(py ''about.html'', page [Tag (py ''title'') [] [NavigableString about_title]] []),
      (py ''home.html'', page [Tag (py ''title'') [] [NavigableString home_title]] [])]"

text \<open>Twelve stored candidates \<open>c_0\<close> ... \<open>c_11\<close>, as mining leaves them: \<open>c_2\<close> and
  \<open>c_3\<close> are alike, \<open>c_10\<close> and \<open>c_11\<close> are alike, and the others are all different.\<close>

definition candidate :: "pystr \<Rightarrow> node \<Rightarrow> (pystr set, pystr list) item" where
  "candidate html_path t =
     \<lparr>source_page = html_path, raw_tag_html = t, canonical_tag = t,
      mh = get_minhash E0 t, simh = get_simhash E0 t\<rparr>"

definition kind :: "nat \<Rightarrow> node" where
  "kind i =
     Tag (py ''div'') []
       [Tag (if i = 2 \<or> i = 3 then py ''ul'' else if i = 10 \<or> i = 11 then py ''ol''
             else py ''x'' @ str_nat i) [] []]"

definition twelve :: "(pystr set, pystr list) refactorer" where
  "twelve =
     \<lparr>items = map (\<lambda>i. (key_of i, candidate (py ''a.html'') (kind i))) [0 ..< 12],
      lsh = map (\<lambda>i. (key_of i, get_minhash E0 (kind i))) [0 ..< 12],
      soups = []\<rparr>"

text \<open>Two stored candidates alike in their tags: an empty element, of size 0, and an
  element that holds one text, of size 1.\<close>

definition pair_state :: "(pystr set, pystr list) refactorer" where
  "pair_state =
     \<lparr>items = [(key_of 0, candidate (py ''a.html'') (Tag (py ''div'') [] [])),
               (key_of 1, candidate (py ''b.html'')
                  (Tag (py ''div'') [] [NavigableString (py ''x'')]))],
      lsh = [(key_of 0, {}), (key_of 1, {})],
      soups = []\<rparr>"

text \<open>A navigation bar whose paragraph holds two texts separated by a comment, and a
  navigation bar with volatile attributes, a stateful class and an anchor link.\<close>

definition split_text :: node where
  "split_text =
     Tag (py ''nav'') []
       [Tag (py ''p'') [] [NavigableString (py ''a''), Comment (py ''x''), NavigableString (py ''b'')]]"

definition menu :: node where
  "menu =
     Tag (py ''nav'') [(py ''id'', Str (py ''main''))]
       [Tag (py ''a'')
          [(py ''class'', Lst [py ''nav-link'', py ''active'', py ''btn'']),
           (py ''href'', Str (py ''#home'')), (py ''id'', Str (py ''x''))]
          [NavigableString (py ''  Home   page '')]]"

text \<open>Two copies of a page whose head declares its character set and an author, links a
  stylesheet and an icon and holds an empty script, and whose body loads a script.\<close>

definition charset_meta :: node where
  "charset_meta = Tag (py ''meta'') [(py ''charset'', Str (py ''utf-8''))] []"

definition author_meta :: node where
  "author_meta =
     Tag (py ''meta'') [(py ''name'', Str (py ''author'')), (py ''content'', Str (py ''me''))] []"

definition css_link :: node where
  "css_link =
     Tag (py ''link'') [(py ''rel'', Lst [py ''stylesheet'']), (py ''href'', Str (py ''a.css''))] []"

definition icon_link :: node where
  "icon_link = Tag (py ''link'') [(py ''rel'', Lst [py ''icon'']), (py ''href'', Str (py ''a.ico''))] []"

definition app_script :: node where
  "app_script = Tag (py ''script'') [(py ''src'', Str (py ''app.js''))] []"

definition site_head :: node where
  "site_head =
     Tag (py ''head'') [] [charset_meta, author_meta, css_link, icon_link, Tag (py ''script'') [] []]"

definition site_body :: node where
  "site_body = Tag (py ''body'') [] [app_script]"

definition site_page :: node where
  "site_page = soup_of [Tag (py ''html'') [] [site_head, site_body]]"

definition site :: "(pystr \<times> node) list" where
  "site = [(py ''a.html'', site_page), (py ''b.html'', site_page)]"

section \<open>The clustering pass\<close>

declare str_nat.simps [simp del]

lemma cluster_near_Inr:
  "cluster_near E its key seed near_keys visited cluster = Inr (c', v') \<Longrightarrow>
     \<exists>more. c' = cluster @ more \<and> v' = visited \<union> set (map fst more) \<and>
       distinct (map fst more) \<and> set (map fst more) \<inter> visited = {} \<and>
       (\<forall>(nk, near) \<in> set more. map_of its nk = Some near \<and> accepted E seed near)"
proof (induction near_keys arbitrary: visited cluster)
  case Nil
  then show ?case by simp
next
  case (Cons nk near_keys)
  show ?case
  proof (cases "nk = key \<or> nk \<in> visited")
    case True
    with Cons.prems have "cluster_near E its key seed near_keys visited cluster = Inr (c', v')"
      by simp
    from Cons.IH[OF this] show ?thesis .
  next
    case False
    with Cons.prems obtain near where near: "map_of its nk = Some near"
      by (cases "map_of its nk") auto
    show ?thesis
    proof (cases "accepted E seed near")
      case False
      with Cons.prems \<open>\<not> (nk = key \<or> nk \<in> visited)\<close> near
      have "cluster_near E its key seed near_keys visited cluster = Inr (c', v')"
        by (auto simp: accepted_def Let_def split: if_splits)
      from Cons.IH[OF this] show ?thesis .
    next
      case True
      with Cons.prems \<open>\<not> (nk = key \<or> nk \<in> visited)\<close> near
      have "cluster_near E its key seed near_keys (insert nk visited) (cluster @ [(nk, near)])
              = Inr (c', v')"
        by (auto simp: accepted_def Let_def split: if_splits)
      from Cons.IH[OF this] obtain more where more:
        "c' = (cluster @ [(nk, near)]) @ more" "v' = insert nk visited \<union> set (map fst more)"
        "distinct (map fst more)" "set (map fst more) \<inter> insert nk visited = {}"
        "\<forall>(nk, near) \<in> set more. map_of its nk = Some near \<and> accepted E seed near"
        by blast
      show ?thesis
        using more True near \<open>\<not> (nk = key \<or> nk \<in> visited)\<close>
        by (intro exI[of _ "(nk, near) # more"]) auto
    qed
  qed
qed

lemma cluster_loop_Inr:
  "cluster_loop E st keys visited clusters = Inr cs \<Longrightarrow>
     \<exists>new. cs = clusters @ new \<and> well_clustered E st keys visited new"
proof (induction keys arbitrary: visited clusters)
  case Nil
  then show ?case by (simp add: well_clustered_def)
next
  case (Cons key keys)
  show ?case
  proof (cases "key \<in> visited")
    case True
    with Cons.prems have "cluster_loop E st keys visited clusters = Inr cs" by simp
    from Cons.IH[OF this] obtain new where
      "cs = clusters @ new" "well_clustered E st keys visited new" by blast
    then show ?thesis
      by (intro exI[of _ new]) (auto simp: well_clustered_def)
  next
    case False
    with Cons.prems obtain seed where seed: "map_of (items st) key = Some seed"
      by (cases "map_of (items st) key") auto
    with Cons.prems False obtain cluster visited' where
      near: "cluster_near E (items st) key seed (lsh_query E (lsh st) (mh seed))
               (insert key visited) [(key, seed)] = Inr (cluster, visited')"
      and rest: "cluster_loop E st keys visited'
                   (if length cluster > 1 then clusters @ [cluster] else clusters) = Inr cs"
      by (auto split: sum.splits)
    from cluster_near_Inr[OF near] obtain more where more:
      "cluster = [(key, seed)] @ more" "visited' = insert key visited \<union> set (map fst more)"
      "distinct (map fst more)" "set (map fst more) \<inter> insert key visited = {}"
      "\<forall>(nk, near) \<in> set more. map_of (items st) nk = Some near \<and> accepted E seed near"
      by blast
    from Cons.IH[OF rest] obtain new where new:
      "cs = (if length cluster > 1 then clusters @ [cluster] else clusters) @ new"
      "well_clustered E st keys visited' new" by blast
    show ?thesis
    proof (cases "length cluster > 1")
      case True
      define K where "K = set (concat (map (map fst) new))"
      have wc: "subseq (map (\<lambda>c. fst (hd c)) new) keys" "distinct (concat (map (map fst) new))"
        "K \<inter> visited' = {}"
        "\<forall>c \<in> set new. 2 \<le> length c \<and> (\<forall>(nk, near) \<in> set (tl c). accepted E (snd (hd c)) near)"
        using new(2) by (simp_all add: well_clustered_def K_def)
      have ck: "map fst cluster = key # map fst more" using more(1) by simp
      have sub: "set (map fst cluster) \<subseteq> visited'" using more(1,2) by auto
      have dc: "distinct (map fst cluster)" using ck more(3,4) by auto
      have dj: "set (map fst cluster) \<inter> K = {}" using sub wc(3) by blast
      have vs: "visited \<subseteq> visited'" using more(2) by auto
      have a1: "subseq (map (\<lambda>c. fst (hd c)) (cluster # new)) (key # keys)"
        using wc(1) more(1) by simp
      have a2: "distinct (concat (map (map fst) (cluster # new)))"
        using dc wc(2) dj by (simp add: K_def)
      have a3: "set (concat (map (map fst) (cluster # new))) \<inter> visited = {}"
      proof -
        have "set (map fst cluster) \<inter> visited = {}"
          using ck more(4) \<open>key \<notin> visited\<close> by auto
        moreover have "K \<inter> visited = {}" using wc(3) vs by blast
        moreover have "set (concat (map (map fst) (cluster # new))) = set (map fst cluster) \<union> K"
          by (simp add: K_def)
        ultimately show ?thesis by (simp only: Int_Un_distrib2 Un_empty)
      qed
      have a4: "2 \<le> length cluster \<and>
          (\<forall>(nk, near) \<in> set (tl cluster). accepted E (snd (hd cluster)) near)"
        using True more(1,5) by (cases more) auto
      have "well_clustered E st (key # keys) visited (cluster # new)"
        unfolding well_clustered_def using a1 a2 a3 a4 wc(4) by simp
      with new(1) True show ?thesis
        by (intro exI[of _ "cluster # new"]) simp
    next
      case False
      have "visited \<subseteq> visited'" using more(2) by auto
      then have "well_clustered E st (key # keys) visited new"
        using new(2) unfolding well_clustered_def by (simp add: Int_commute subseq_Cons') blast
      with new(1) False show ?thesis
        by (intro exI[of _ new]) simp
    qed
  qed
qed

lemma cluster_candidates_Inr:
  assumes "cluster_candidates E st = Inr clusters"
  shows "well_clustered E st (sorted_keys st) {} clusters"
  using cluster_loop_Inr[of E st "sorted_keys st" "{}" "[]" clusters] assms
  by (simp add: cluster_candidates_def)

text \<open>The pass ends without an exception when the index returns keys of stored
  candidates only.\<close>

lemma cluster_near_total:
  assumes "set near_keys \<subseteq> fst ` set its"
  shows "\<exists>r. cluster_near E its key seed near_keys visited cluster = Inr r"
  using assms
proof (induction near_keys arbitrary: visited cluster)
  case Nil
  then show ?case by simp
next
  case (Cons nk near_keys)
  then have "nk \<in> fst ` set its" by simp
  then obtain near where "map_of its nk = Some near"
    by (metis domD dom_map_of_conv_image_fst)
  with Cons show ?case by (simp add: Let_def)
qed

lemma cluster_loop_total:
  assumes "set keys \<subseteq> fst ` set (items st)"
    and "\<And>m. set (lsh_query E (lsh st) m) \<subseteq> fst ` set (items st)"
  shows "\<exists>cs. cluster_loop E st keys visited clusters = Inr cs"
  using assms(1)
proof (induction keys arbitrary: visited clusters)
  case Nil
  then show ?case by simp
next
  case (Cons key keys)
  then have "key \<in> fst ` set (items st)" by simp
  then obtain seed where seed: "map_of (items st) key = Some seed"
    by (metis domD dom_map_of_conv_image_fst)
  obtain r where "cluster_near E (items st) key seed (lsh_query E (lsh st) (mh seed))
      (insert key visited) [(key, seed)] = Inr r"
    using cluster_near_total[OF assms(2)] by blast
  with seed Cons show ?case by (cases r) simp
qed

section \<open>The canonical form\<close>

subsection \<open>Text\<close>

lemma isspace_32: "isspace 32"
  by (simp add: isspace_def)

lemma dropWhile_hd: "dropWhile P xs = [] \<or> \<not> P (hd (dropWhile P xs))"
  by (metis hd_dropWhile)

lemma collapse_ws_hd:
  "cs = [] \<or> \<not> isspace (hd cs) \<Longrightarrow> collapse_ws cs = [] \<or> \<not> isspace (hd (collapse_ws cs))"
  by (cases cs) auto

lemma collapsed_collapse_ws: "collapsed (collapse_ws s)"
proof (induction s rule: collapse_ws.induct)
  case 1
  then show ?case by simp
next
  case (2 c cs)
  show ?case
  proof (cases "isspace c")
    case True
    have "collapse_ws (dropWhile isspace cs) = [] \<or>
        \<not> isspace (hd (collapse_ws (dropWhile isspace cs)))"
      using collapse_ws_hd[of "dropWhile isspace cs", OF dropWhile_hd] .
    with True 2 show ?thesis by simp
  next
    case False
    with 2 show ?thesis by simp
  qed
qed

lemma collapse_ws_collapsed: "collapsed s \<Longrightarrow> collapse_ws s = s"
proof (induction s rule: collapse_ws.induct)
  case 1
  then show ?case by simp
next
  case (2 c cs)
  show ?case
  proof (cases "isspace c")
    case True
    with "2.prems" have c: "c = 32" and h: "cs = [] \<or> \<not> isspace (hd cs)" and r: "collapsed cs"
      by simp_all
    from h have d: "dropWhile isspace cs = cs" by (cases cs) auto
    from "2.IH"(1)[OF True] r d have "collapse_ws cs = cs" by simp
    with True c d show ?thesis by simp
  next
    case False
    with 2 show ?thesis by simp
  qed
qed

lemma collapsed_append: "collapsed (xs @ ys) \<Longrightarrow> collapsed xs"
  by (induction xs) (auto simp: hd_append split: if_splits)

lemma collapsed_dropWhile: "collapsed xs \<Longrightarrow> collapsed (dropWhile P xs)"
  by (induction xs) auto

lemma strip_chars_prefix: "\<exists>w. u = rev (dropWhile P (rev u)) @ w"
proof -
  have "rev u = takeWhile P (rev u) @ dropWhile P (rev u)" by simp
  then have "u = rev (dropWhile P (rev u)) @ rev (takeWhile P (rev u))"
    by (metis rev_append rev_rev_ident)
  then show ?thesis by blast
qed

lemma collapsed_strip: "collapsed s \<Longrightarrow> collapsed (strip s)"
proof -
  assume "collapsed s"
  then have c: "collapsed (dropWhile isspace s)" by (rule collapsed_dropWhile)
  obtain w where "dropWhile isspace s = rev (dropWhile isspace (rev (dropWhile isspace s))) @ w"
    using strip_chars_prefix by blast
  with c have "collapsed (rev (dropWhile isspace (rev (dropWhile isspace s))))"
    by (metis collapsed_append)
  then show ?thesis by (simp add: strip_def strip_chars_def)
qed

lemma strip_chars_idem: "strip_chars P (strip_chars P s) = strip_chars P s"
proof -
  define u where "u = dropWhile P s"
  define v where "v = rev (dropWhile P (rev u))"
  obtain w where w: "u = v @ w" unfolding v_def using strip_chars_prefix by blast
  have hu: "u = [] \<or> \<not> P (hd u)" unfolding u_def by (rule dropWhile_hd)
  have "v = [] \<or> \<not> P (hd v)"
  proof (cases "v = []")
    case False
    then have "hd v = hd u" "u \<noteq> []" using w by simp_all
    with hu show ?thesis by metis
  qed simp
  then have a: "dropWhile P v = v" by (cases v) auto
  have "dropWhile P (rev u) = [] \<or> \<not> P (hd (dropWhile P (rev u)))" by (rule dropWhile_hd)
  then have "dropWhile P (dropWhile P (rev u)) = dropWhile P (rev u)"
    by (cases "dropWhile P (rev u)") auto
  then have b: "rev (dropWhile P (rev v)) = v" by (simp add: v_def)
  have "strip_chars P s = v" by (simp add: strip_chars_def v_def u_def)
  moreover have "strip_chars P v = v" by (simp only: strip_chars_def a b)
  ultimately show ?thesis by simp
qed

lemma normalize_text_idem:
  "strip (collapse_ws (strip (collapse_ws s))) = strip (collapse_ws s)"
proof -
  have "collapsed (strip (collapse_ws s))"
    using collapsed_strip[OF collapsed_collapse_ws] .
  then have "collapse_ws (strip (collapse_ws s)) = strip (collapse_ws s)"
    by (rule collapse_ws_collapsed)
  then show ?thesis by (simp add: strip_def strip_chars_idem)
qed

lemma normalized_text_fixed:
  "x \<in> set (normalized_text s) \<Longrightarrow> normalize_strings x = [x]"
  by (auto simp: normalized_text_def Let_def normalize_text_idem split: if_splits)

subsection \<open>Attributes\<close>

lemma fold_delete_filter:
  "fold AList.delete ks al = filter (\<lambda>p. fst p \<notin> set ks) al"
proof (induction ks arbitrary: al)
  case Nil
  then show ?case by simp
next
  case (Cons k ks)
  have "filter (\<lambda>p. fst p \<notin> set ks) (AList.delete k al) =
        filter (\<lambda>p. fst p \<notin> set (k # ks)) al"
    by (induction al) (auto simp: AList.delete_eq)
  with Cons show ?case by simp
qed

lemma map_of_filter_key:
  "map_of (filter (\<lambda>p. fst p \<notin> S) al) k = (if k \<in> S then None else map_of al k)"
  by (induction al) auto

lemma set_update_subset: "set (AList.update k v al) \<subseteq> insert (k, v) (set al)"
  by (induction al) auto

lemma fold_update_set:
  "set (fold (\<lambda>(k, v). AList.update k v) n al) \<subseteq> set n \<union> set al"
proof (induction n arbitrary: al)
  case Nil
  then show ?case by simp
next
  case (Cons kv n)
  obtain k v where kv: "kv = (k, v)" by (cases kv)
  have "set (fold (\<lambda>(k, v). AList.update k v) n (AList.update k v al))
          \<subseteq> set n \<union> set (AList.update k v al)"
    using Cons.IH .
  with set_update_subset[of k v al] kv show ?case by auto
qed

lemma fold_update_map_of:
  assumes "\<forall>(k, v) \<in> set n. v = c"
  shows "map_of (fold (\<lambda>(k, v). AList.update k v) n al) k =
           (if k \<in> fst ` set n then Some c else map_of al k)"
  using assms
proof (induction n arbitrary: al)
  case Nil
  then show ?case by simp
next
  case (Cons kv n)
  obtain k' v where kv: "kv = (k', v)" by (cases kv)
  with Cons.prems have v: "v = c" and rest: "\<forall>(k, v) \<in> set n. v = c" by auto
  from Cons.IH[OF rest, of "AList.update k' v al"] kv v
  show ?case by (auto simp: AList.update_conv')
qed

lemma fold_update_triv:
  assumes "\<forall>(k, v) \<in> set n. map_of al k = Some v"
  shows "fold (\<lambda>(k, v). AList.update k v) n al = al"
  using assms by (induction n) (auto simp: AList.update_triv)

lemma is_anchor_hash: "is_anchor (k, v) \<Longrightarrow> is_anchor (k, Str (py ''#''))"
  by (cases v) (auto simp: startswith_def)

lemma class_not_dropped: "\<not> is_dropped (py ''class'')"
  by (simp add: is_dropped_def DROP_ATTRS_def KEEP_ATTRS_def startswith_def)

lemma class_not_anchor: "\<not> is_anchor (py ''class'', v)"
  by (cases v) auto

lemma canon_class_fixed:
  assumes "map_of b (py ''class'') = map_of (canon_class E a) (py ''class'')"
  shows "canon_class E b = b"
proof (cases "map_of a (py ''class'')")
  case None
  with assms show ?thesis by (simp add: canon_class_def)
next
  case (Some v)
  define cls where
    "cls = sort (filter (\<lambda>c. \<not> STATEFUL_CLASSES_search E c \<and> c \<notin> set stateful) (class_tokens v))"
  show ?thesis
  proof (cases "cls = []")
    case True
    with Some have "canon_class E a = AList.delete (py ''class'') a"
      by (simp add: canon_class_def cls_def)
    with assms have "map_of b (py ''class'') = None"
      by (simp add: AList.delete_conv')
    then show ?thesis by (simp add: canon_class_def)
  next
    case False
    with Some have "canon_class E a = AList.update (py ''class'') (Lst cls) a"
      by (simp add: canon_class_def cls_def Let_def)
    with assms have m: "map_of b (py ''class'') = Some (Lst cls)"
      by (simp add: AList.update_conv')
    have "filter (\<lambda>c. \<not> STATEFUL_CLASSES_search E c \<and> c \<notin> set stateful) cls = cls"
      by (rule filter_True) (auto simp: cls_def)
    moreover have "sort cls = cls"
      by (simp add: cls_def sort_key_id_if_sorted)
    ultimately have "sort (filter (\<lambda>c. \<not> STATEFUL_CLASSES_search E c \<and> c \<notin> set stateful)
        (class_tokens (Lst cls))) = cls"
      by simp
    with m False show ?thesis
      by (simp add: canon_class_def AList.update_triv)
  qed
qed

lemma canon_attrs_idem: "canon_attrs E (canon_attrs E a) = canon_attrs E a"
proof -
  define a1 where "a1 = canon_class E a"
  define D where "D = attrs_to_delete a1"
  define a2 where "a2 = fold AList.delete D a1"
  define N where "N = attrs_to_normalize a1"
  define b where "b = fold (\<lambda>(k, v). AList.update k v) N a2"
  have b: "canon_attrs E a = b"
    by (simp add: canon_attrs_def Let_def a1_def D_def a2_def N_def b_def)
  have a2: "a2 = filter (\<lambda>p. fst p \<notin> set D) a1"
    by (simp add: a2_def fold_delete_filter)
  have N: "\<forall>(k, v) \<in> set N. v = Str (py ''#'') \<and> is_anchor (k, v)"
    by (auto simp: N_def attrs_to_normalize_def dest: is_anchor_hash)
  then have Nc: "\<forall>(k, v) \<in> set N. v = Str (py ''#'')" by auto
  have mb: "map_of b k = (if k \<in> fst ` set N then Some (Str (py ''#'')) else map_of a2 k)" for k
    unfolding b_def using fold_update_map_of[OF Nc] .
  have sb: "set b \<subseteq> set N \<union> set a2"
    unfolding b_def by (rule fold_update_set)
  have keep: "\<not> (\<not> is_anchor (k, v) \<and> is_dropped k)" if "(k, v) \<in> set b" for k v
  proof -
    from sb that consider "(k, v) \<in> set N" | "(k, v) \<in> set a2" by auto
    then show ?thesis
    proof cases
      case 1
      with N show ?thesis by auto
    next
      case 2
      then have "(k, v) \<in> set a1" "k \<notin> set D" by (auto simp: a2)
      then show ?thesis by (force simp: D_def attrs_to_delete_def)
    qed
  qed
  have del: "attrs_to_delete b = []"
    using keep by (fastforce simp: attrs_to_delete_def filter_empty_conv)
  have anchor: "map_of b k = Some (Str (py ''#''))" if "(k, v) \<in> set b" "is_anchor (k, v)" for k v
  proof -
    from sb that(1) consider "(k, v) \<in> set N" | "(k, v) \<in> set a2" by auto
    then have "k \<in> fst ` set N"
    proof cases
      case 1
      then show ?thesis by force
    next
      case 2
      then have "(k, v) \<in> set a1" by (auto simp: a2)
      with that(2) have "(k, Str (py ''#'')) \<in> set N"
        by (force simp: N_def attrs_to_normalize_def)
      then show ?thesis by force
    qed
    with mb show ?thesis by simp
  qed
  have norm: "fold (\<lambda>(k, v). AList.update k v) (attrs_to_normalize b) b = b"
    by (rule fold_update_triv) (auto simp: attrs_to_normalize_def anchor)
  have "py ''class'' \<notin> fst ` set N"
    using N class_not_anchor by fastforce
  moreover have "py ''class'' \<notin> set D"
    using class_not_dropped by (auto simp: D_def attrs_to_delete_def)
  ultimately have "map_of b (py ''class'') = map_of a1 (py ''class'')"
    unfolding mb a2 by (simp only: map_of_filter_key if_False)
  then have cls: "canon_class E b = b"
    unfolding a1_def by (rule canon_class_fixed)
  show ?thesis
    unfolding b by (simp add: canon_attrs_def[of E b] Let_def cls del norm)
qed

subsection \<open>Trees\<close>

lemma concat_fixed: "(\<forall>x \<in> set xs. f x = [x]) \<Longrightarrow> concat (map f xs) = xs"
  by (induction xs) auto

lemma normalize_strings_fixed:
  "x \<in> set (normalize_strings t) \<Longrightarrow> normalize_strings x = [x]"
proof (induction t arbitrary: x)
  case (Tag n a cs)
  have "\<forall>y \<in> set (concat (map normalize_strings cs)). normalize_strings y = [y]"
    using Tag.IH by auto
  then have "concat (map normalize_strings (concat (map normalize_strings cs))) =
      concat (map normalize_strings cs)"
    by (rule concat_fixed)
  with Tag.prems show ?case by simp
next
  case (NavigableString s)
  then show ?case using normalized_text_fixed by simp
next
  case (Comment s)
  then show ?case using normalized_text_fixed by simp
qed

lemma normalize_strings_no_comment:
  "x \<in> set (normalize_strings t) \<Longrightarrow> \<not> is_Comment x \<and> remove_comments x = x"
proof (induction t arbitrary: x)
  case (Tag n a cs)
  have ih: "\<forall>y \<in> set (concat (map normalize_strings cs)). \<not> is_Comment y \<and> remove_comments y = y"
    using Tag.IH by auto
  have "filter (\<lambda>c. \<not> is_Comment c) (concat (map normalize_strings cs)) =
      concat (map normalize_strings cs)"
    by (rule filter_True) (use ih in blast)
  moreover have "map remove_comments (concat (map normalize_strings cs)) =
      concat (map normalize_strings cs)"
    by (rule map_idI) (use ih in blast)
  ultimately show ?case using Tag.prems by simp
next
  case (NavigableString s)
  then show ?case by (auto simp: normalized_text_def Let_def split: if_splits)
next
  case (Comment s)
  then show ?case by (auto simp: normalized_text_def Let_def split: if_splits)
qed

lemma canon_el_idem: "canon_el E (canon_el E t) = canon_el E t"
  by (induction t) (simp_all add: canon_attrs_idem)

lemma canon_el_normalize:
  "normalize_strings (canon_el E t) = map (canon_el E) (normalize_strings t)"
proof (induction t)
  case (Tag n a cs)
  have "concat (map normalize_strings (map (canon_el E) cs)) =
      concat (map (map (canon_el E)) (map normalize_strings cs))"
    using Tag.IH by (simp add: comp_def cong: map_cong)
  then show ?case by (simp add: map_concat)
next
  case (NavigableString s)
  then show ?case by (simp add: normalized_text_def Let_def)
next
  case (Comment s)
  then show ?case by (simp add: normalized_text_def Let_def)
qed

lemma canon_root_idem: "canon_root E (canon_root E r) = canon_root E r"
proof (cases r)
  case (Tag n a cs)
  define cs1 where "cs1 = map remove_comments (filter (\<lambda>c. \<not> is_Comment c) cs)"
  define zs where "zs = concat (map normalize_strings cs1)"
  define ys where "ys = map (canon_el E) zs"
  have y: "canon_root E r = Tag n a ys"
  proof -
    have "concat (map normalize_strings (map (canon_el E) cs1)) =
        concat (map (map (canon_el E)) (map normalize_strings cs1))"
      by (simp add: comp_def canon_el_normalize)
    then show ?thesis
      by (simp add: Tag canon_root_def cs1_def ys_def zs_def map_concat)
  qed
  have fixed: "\<forall>x \<in> set ys. normalize_strings x = [x] \<and> \<not> is_Comment x \<and> remove_comments x = x"
  proof
    fix x assume "x \<in> set ys"
    then obtain z where z: "z \<in> set zs" "x = canon_el E z" by (auto simp: ys_def)
    then obtain c where "z \<in> set (normalize_strings c)" by (auto simp: zs_def)
    then have "x \<in> set (normalize_strings (canon_el E c))"
      using z(2) by (simp add: canon_el_normalize)
    then show "normalize_strings x = [x] \<and> \<not> is_Comment x \<and> remove_comments x = x"
      using normalize_strings_fixed normalize_strings_no_comment by blast
  qed
  have rc: "map remove_comments (filter (\<lambda>c. \<not> is_Comment c) ys) = ys"
  proof -
    have "filter (\<lambda>c. \<not> is_Comment c) ys = ys" by (rule filter_True) (use fixed in blast)
    moreover have "map remove_comments ys = ys" by (rule map_idI) (use fixed in blast)
    ultimately show ?thesis by simp
  qed
  have ce: "map (canon_el E) ys = ys"
    by (simp add: ys_def canon_el_idem)
  have ns: "concat (map normalize_strings ys) = ys"
    by (rule concat_fixed) (use fixed in blast)
  show ?thesis
    unfolding y by (simp add: canon_root_def rc ce ns)
qed (simp_all add: canon_root_def)


section \<open>Determinism (C1)\<close>

text \<open>
  C1. Two runs on the same corpus in the same document order give the same clusters, the
  same numbering of the partials and the same rewritten documents. The order in which
  the set \<open>found_tags\<close> yields its elements is not fixed by the program, and the keys
  are handed out in that order: on the two pages with a header and a navigation bar, a run
  that iterates the set in insertion order writes \<open>partial_1_header.html\<close> and
  \<open>partial_2_nav.html\<close>, and a run that iterates it in the opposite order writes
  \<open>partial_1_nav.html\<close> and \<open>partial_2_header.html\<close>.
\<close>

theorem run_depends_on_set_order:
  "(case run E0 two_pages of Inr (infos, out) \<Rightarrow> map partial_file infos | Inl e \<Rightarrow> []) =
     [py ''partial_1_header.html'', py ''partial_2_nav.html''] \<and>
   (case run E1 two_pages of Inr (infos, out) \<Rightarrow> map partial_file infos | Inl e \<Rightarrow> []) =
     [py ''partial_1_nav.html'', py ''partial_2_header.html'']"
  by code_simp

section \<open>Seed order (C2)\<close>

lemma subseq_sorted:
  "subseq xs ys \<Longrightarrow> sorted ys \<Longrightarrow> sorted xs"
proof (induction rule: list_emb.induct)
  case (list_emb_Cons2 x y xs ys)
  then have "\<forall>z \<in> set xs. x \<le> z"
    using list_emb_set[OF list_emb_Cons2.hyps(2)] by fastforce
  with list_emb_Cons2 show ?case by simp
qed simp_all

lemma str_nat_not_Nil: "str_nat n \<noteq> []"
  by (subst str_nat.simps) simp

lemma less_snoc_same_length:
  "length xs = length ys \<Longrightarrow>
     xs @ [a] < ys @ [b] \<longleftrightarrow> xs < ys \<or> xs = ys \<and> (a :: 'a :: linorder) < b"
  by (induction xs ys rule: list_induct2) auto

lemma less_same_prefix: "xs @ ys < xs @ zs \<longleftrightarrow> ys < (zs :: 'a :: linorder list)"
  by (induction xs) auto

lemma str_nat_mono:
  "i < j \<Longrightarrow> length (str_nat i) = length (str_nat j) \<Longrightarrow> str_nat i < str_nat j"
proof (induction i arbitrary: j rule: str_nat.induct)
  case (1 i)
  show ?case
  proof (cases "i < 10")
    case True
    then have i: "str_nat i = [48 + i]" by (subst str_nat.simps) simp
    have "j < 10"
    proof (rule ccontr)
      assume "\<not> j < 10"
      then have "str_nat j = str_nat (j div 10) @ [48 + j mod 10]"
        by (subst str_nat.simps) simp
      then have "length (str_nat j) \<ge> 2"
        using str_nat_not_Nil[of "j div 10"] by (cases "str_nat (j div 10)") auto
      with "1.prems"(2) i show False by simp
    qed
    then have "str_nat j = [48 + j]" by (subst str_nat.simps) simp
    with i "1.prems"(1) show ?thesis by simp
  next
    case False
    then have i: "str_nat i = str_nat (i div 10) @ [48 + i mod 10]"
      by (subst str_nat.simps) simp
    from False "1.prems"(1) have "\<not> j < 10" by simp
    then have j: "str_nat j = str_nat (j div 10) @ [48 + j mod 10]"
      by (subst str_nat.simps) simp
    from i j "1.prems"(2) have len: "length (str_nat (i div 10)) = length (str_nat (j div 10))"
      by simp
    have le: "i div 10 \<le> j div 10" using "1.prems"(1) by (simp add: div_le_mono)
    show ?thesis
    proof (cases "i div 10 < j div 10")
      case True
      from "1.IH"[OF False True len] show ?thesis
        using i j len by (simp add: less_snoc_same_length)
    next
      case False
      with le have eq: "i div 10 = j div 10" by simp
      then have "i mod 10 < j mod 10"
        using "1.prems"(1) by (metis div_mult_mod_eq nat_add_left_cancel_less)
      with eq i j show ?thesis by (simp add: less_snoc_same_length)
    qed
  qed
qed

text \<open>
  C2, as the claim states it, on twelve candidates: the ids are strings and \<open>sorted\<close>
  orders them as strings, so the candidate \<open>c_10\<close> is taken as a seed before the
  candidate \<open>c_2\<close>, and the cluster it seeds is emitted first.
\<close>

theorem seed_order_counterexample:
  "sorted_keys twelve = map key_of [0, 1, 10, 11, 2, 3, 4, 5, 6, 7, 8, 9] \<and>
   (case cluster_candidates E0 twelve of Inr clusters \<Rightarrow> map (map fst) clusters | Inl e \<Rightarrow> []) =
     [[key_of 10, key_of 11], [key_of 2, key_of 3]]"
  by code_simp

text \<open>
  C2, amended. The clustering pass takes the seeds in ascending order of the id strings:
  the keys it iterates are the stored keys sorted as strings, and the seeds of the emitted
  clusters follow each other in that order. Of two candidates whose ordinals have the same
  number of decimal digits, the one with the smaller ordinal has the smaller id, so it is
  considered first; this covers every pair when there are at most ten candidates.
\<close>

theorem seed_order:
  "sorted (sorted_keys st) \<and>
   mset (sorted_keys st) = mset (map fst (items st)) \<and>
   (cluster_candidates E st = Inr clusters \<longrightarrow>
      subseq (map (\<lambda>c. fst (hd c)) clusters) (sorted_keys st) \<and>
      sorted (map (\<lambda>c. fst (hd c)) clusters)) \<and>
   (i < j \<and> length (str_nat i) = length (str_nat j) \<longrightarrow> key_of i < key_of j) \<and>
   (i < j \<and> j < 10 \<longrightarrow> key_of i < key_of j)"
proof -
  have a: "sorted (sorted_keys st)" "mset (sorted_keys st) = mset (map fst (items st))"
    by (simp_all add: sorted_keys_def)
  have b: "subseq (map (\<lambda>c. fst (hd c)) clusters) (sorted_keys st) \<and>
      sorted (map (\<lambda>c. fst (hd c)) clusters)"
    if "cluster_candidates E st = Inr clusters"
  proof -
    from cluster_candidates_Inr[OF that]
    have s: "subseq (map (\<lambda>c. fst (hd c)) clusters) (sorted_keys st)"
      by (simp add: well_clustered_def)
    from subseq_sorted[OF s a(1)] s show ?thesis by simp
  qed
  have c: "key_of i < key_of j" if "i < j" "length (str_nat i) = length (str_nat j)"
    using str_nat_mono[OF that] by (simp only: key_of_def less_same_prefix)
  have d: "key_of i < key_of j" if "i < j" "j < 10"
  proof -
    have "str_nat i = [48 + i]" "str_nat j = [48 + j]"
      using that by (subst str_nat.simps, simp)+
    then show ?thesis using c that(1) by simp
  qed
  show ?thesis using a b c d by blast
qed

theorem seed_order_witness:
  "key_of 3 < key_of 7 \<and> key_of 12 < key_of 40 \<and>
   (\<exists>clusters. cluster_candidates E0 twelve = Inr clusters \<and>
      sorted (map (\<lambda>c. fst (hd c)) clusters) \<and> length clusters = 2)"
proof -
  have l: "length (str_nat 12) = length (str_nat 40)" by code_simp
  have k1: "key_of 3 < key_of 7"
    using seed_order[where st = twelve and E = E0 and clusters = "[]" and i = 3 and j = 7]
    by simp
  have k2: "key_of 12 < key_of 40"
    using seed_order[where st = twelve and E = E0 and clusters = "[]" and i = 12 and j = 40] l
    by simp
  have ev: "(case cluster_candidates E0 twelve of
      Inr clusters \<Rightarrow> length clusters = 2 | Inl e \<Rightarrow> False)"
    by code_simp
  then obtain clusters where
    cs: "cluster_candidates E0 twelve = Inr clusters" "length clusters = 2"
    by (cases "cluster_candidates E0 twelve") auto
  have "sorted (map (\<lambda>c. fst (hd c)) clusters)"
    using seed_order[where st = twelve and E = E0 and clusters = clusters and i = 0 and j = 0]
      cs(1) by blast
  with cs k1 k2 show ?thesis by blast
qed

section \<open>Partition and representative (C3)\<close>

lemma extract_one_Some:
  assumes "extract_one E i c = Inr (Some info)"
  shows "\<exists>t. List.find is_Tag (descendants (html_parser E (raw_tag_html (snd (hd c))))) = Some t \<and>
           template info = del_attr marker t \<and>
           partial_file info = partial_name i (tag_name t) \<and>
           instances info = map (\<lambda>(key, it). (key, source_page it)) c"
  using assms
  by (cases c) (auto simp: extract_one_def split: if_splits option.splits)

lemma extract_one_None:
  assumes "extract_one E i c = Inr None"
  shows "\<not> is_Tag (canonical_tag (snd (hd c)))"
  using assms
  by (cases c) (auto simp: extract_one_def split: if_splits option.splits)

lemma extract_loop_Inr:
  "extract_loop E i clusters = Inr infos \<Longrightarrow>
     (\<forall>info \<in> set infos. \<exists>c \<in> set clusters. \<exists>j. extract_one E j c = Inr (Some info)) \<and>
     (\<forall>c \<in> set clusters. is_Tag (canonical_tag (snd (hd c))) \<longrightarrow>
        (\<exists>info \<in> set infos. \<exists>j. extract_one E j c = Inr (Some info)))"
proof (induction clusters arbitrary: i infos)
  case Nil
  then show ?case by simp
next
  case (Cons c clusters)
  from Cons.prems obtain r rest where
    r: "extract_one E i c = Inr r" and rest: "extract_loop E (i + 1) clusters = Inr rest"
    and infos: "infos = (case r of None \<Rightarrow> rest | Some info \<Rightarrow> info # rest)"
    by (auto split: sum.splits)
  note ih = Cons.IH[OF rest]
  show ?case
  proof (cases r)
    case None
    with r have "\<not> is_Tag (canonical_tag (snd (hd c)))" using extract_one_None by blast
    with ih infos None show ?thesis by auto
  next
    case (Some info)
    with ih infos r show ?thesis by (auto intro: exI[of _ i])
  qed
qed

text \<open>
  C3. In the clusters the pass emits, no candidate occurs twice (so every candidate
  belongs to at most one cluster), every cluster has at least two members and its first
  member is a seed, taken from the sorted keys in their order; the pass returns its
  clusters whenever the index answers every query with keys of stored candidates. Every
  partial written is made from the raw markup of the first member of a cluster, the seed
  (the first element of the parse of that markup, the marker removed), and lists the
  members of that cluster as its instances; and every cluster whose seed has an element
  as its canonical form gives such a partial.
\<close>

theorem clusters_partition:
  "(cluster_candidates E st = Inr clusters \<longrightarrow>
      distinct (concat (map (map fst) clusters)) \<and>
      (\<forall>c \<in> set clusters. 2 \<le> length c) \<and>
      subseq (map (\<lambda>c. fst (hd c)) clusters) (sorted_keys st)) \<and>
   ((\<forall>m. set (lsh_query E (lsh st) m) \<subseteq> fst ` set (items st)) \<longrightarrow>
      (\<exists>cs. cluster_candidates E st = Inr cs)) \<and>
   (extract_partials E clusters = Inr infos \<longrightarrow>
      (\<forall>info \<in> set infos. \<exists>c \<in> set clusters. \<exists>t.
          List.find is_Tag (descendants (html_parser E (raw_tag_html (snd (hd c))))) = Some t \<and>
          template info = del_attr marker t \<and>
          instances info = map (\<lambda>(key, it). (key, source_page it)) c) \<and>
      (\<forall>c \<in> set clusters. is_Tag (canonical_tag (snd (hd c))) \<longrightarrow>
         (\<exists>info \<in> set infos. \<exists>t.
          List.find is_Tag (descendants (html_parser E (raw_tag_html (snd (hd c))))) = Some t \<and>
          template info = del_attr marker t \<and>
          instances info = map (\<lambda>(key, it). (key, source_page it)) c)))"
proof -
  have a: "distinct (concat (map (map fst) clusters)) \<and>
      (\<forall>c \<in> set clusters. 2 \<le> length c) \<and>
      subseq (map (\<lambda>c. fst (hd c)) clusters) (sorted_keys st)"
    if "cluster_candidates E st = Inr clusters"
    using cluster_candidates_Inr[OF that] by (simp add: well_clustered_def)
  have b: "(\<forall>info \<in> set infos. \<exists>c \<in> set clusters. \<exists>t.
          List.find is_Tag (descendants (html_parser E (raw_tag_html (snd (hd c))))) = Some t \<and>
          template info = del_attr marker t \<and>
          instances info = map (\<lambda>(key, it). (key, source_page it)) c) \<and>
      (\<forall>c \<in> set clusters. is_Tag (canonical_tag (snd (hd c))) \<longrightarrow>
         (\<exists>info \<in> set infos. \<exists>t.
          List.find is_Tag (descendants (html_parser E (raw_tag_html (snd (hd c))))) = Some t \<and>
          template info = del_attr marker t \<and>
          instances info = map (\<lambda>(key, it). (key, source_page it)) c))"
    if "extract_partials E clusters = Inr infos"
  proof -
    from that have "extract_loop E 0 clusters = Inr infos" by (simp add: extract_partials_def)
    from extract_loop_Inr[OF this]
    have p1: "\<forall>info \<in> set infos. \<exists>c \<in> set clusters. \<exists>j. extract_one E j c = Inr (Some info)"
      and p2: "\<forall>c \<in> set clusters. is_Tag (canonical_tag (snd (hd c))) \<longrightarrow>
        (\<exists>info \<in> set infos. \<exists>j. extract_one E j c = Inr (Some info))"
      by blast+
    have q1: "\<exists>c \<in> set clusters. \<exists>t.
          List.find is_Tag (descendants (html_parser E (raw_tag_html (snd (hd c))))) = Some t \<and>
          template info = del_attr marker t \<and>
          instances info = map (\<lambda>(key, it). (key, source_page it)) c"
      if "info \<in> set infos" for info
    proof -
      from p1 that obtain c j where c: "c \<in> set clusters" "extract_one E j c = Inr (Some info)"
        by blast
      from extract_one_Some[OF c(2)] c(1) show ?thesis by blast
    qed
    have q2: "\<exists>info \<in> set infos. \<exists>t.
          List.find is_Tag (descendants (html_parser E (raw_tag_html (snd (hd c))))) = Some t \<and>
          template info = del_attr marker t \<and>
          instances info = map (\<lambda>(key, it). (key, source_page it)) c"
      if "c \<in> set clusters" "is_Tag (canonical_tag (snd (hd c)))" for c
    proof -
      from p2 that obtain info j where
        i: "info \<in> set infos" "extract_one E j c = Inr (Some info)" by blast
      from extract_one_Some[OF i(2)] i(1) show ?thesis by blast
    qed
    show ?thesis using q1 q2 by blast
  qed
  have c: "\<exists>cs. cluster_candidates E st = Inr cs"
    if "\<forall>m. set (lsh_query E (lsh st) m) \<subseteq> fst ` set (items st)"
    unfolding cluster_candidates_def
    by (rule cluster_loop_total) (use that in \<open>auto simp: sorted_keys_def\<close>)
  show ?thesis using a b c by blast
qed

text \<open>On the twelve candidates: two clusters of two, and two partials made from the
  markup of \<open>c_10\<close> and of \<open>c_2\<close>.\<close>

theorem clusters_partition_witness:
  "\<exists>clusters infos.
     cluster_candidates E0 twelve = Inr clusters \<and> extract_partials E0 clusters = Inr infos \<and>
     map (map fst) clusters = [[key_of 10, key_of 11], [key_of 2, key_of 3]] \<and>
     distinct (concat (map (map fst) clusters)) \<and>
     map template infos = [kind 10, kind 2] \<and>
     list_all (\<lambda>info. \<exists>c \<in> set clusters.
       instances info = map (\<lambda>(key, it). (key, source_page it)) c) infos"
proof -
  have ev: "(case cluster_candidates E0 twelve of
      Inr clusters \<Rightarrow>
        map (map fst) clusters = [[key_of 10, key_of 11], [key_of 2, key_of 3]] \<and>
        (case extract_partials E0 clusters of
           Inr infos \<Rightarrow> map template infos = [kind 10, kind 2] | Inl e \<Rightarrow> False)
    | Inl e \<Rightarrow> False)"
    by code_simp
  then obtain clusters infos where
    cs: "cluster_candidates E0 twelve = Inr clusters"
      "map (map fst) clusters = [[key_of 10, key_of 11], [key_of 2, key_of 3]]"
    and ps: "extract_partials E0 clusters = Inr infos" "map template infos = [kind 10, kind 2]"
    by (auto split: sum.splits)
  note t = clusters_partition[where E = E0 and st = twelve and clusters = clusters
      and infos = infos]
  from t cs(1) have d: "distinct (concat (map (map fst) clusters))" by blast
  from t ps(1) have "\<forall>info \<in> set infos. \<exists>c \<in> set clusters.
      instances info = map (\<lambda>(key, it). (key, source_page it)) c"
    by blast
  then have la: "list_all (\<lambda>info. \<exists>c \<in> set clusters.
       instances info = map (\<lambda>(key, it). (key, source_page it)) c) infos"
    by (simp add: list_all_iff)
  show ?thesis
    by (rule exI[of _ clusters], rule exI[of _ infos], intro conjI)
      (fact cs ps d la)+
qed

section \<open>Acceptance predicate (C4)\<close>

text \<open>
  C4. Every candidate of an emitted cluster other than the seed is at fingerprint distance
  at most 6 from the seed, and when the sizes of both are positive the quotient of the
  smaller by the larger is at least 0.85. When one of the two sizes is 0 the quotient is
  not looked at: a matched candidate that is not yet visited and is at distance at most 6
  is appended to the cluster and marked visited.
\<close>

theorem acceptance:
  "(cluster_candidates E st = Inr clusters \<longrightarrow>
      (\<forall>c \<in> set clusters. \<forall>(nk, near) \<in> set (tl c).
         distance E (simh (snd (hd c))) (simh near) \<le> 6 \<and>
         (0 < get_node_size (canonical_tag (snd (hd c))) \<and> 0 < get_node_size (canonical_tag near) \<longrightarrow>
            85 / 100 \<le>
              real (min (get_node_size (canonical_tag (snd (hd c)))) (get_node_size (canonical_tag near))) /
              real (max (get_node_size (canonical_tag (snd (hd c)))) (get_node_size (canonical_tag near)))))) \<and>
   (nk \<noteq> key \<and> nk \<notin> visited \<and> map_of its nk = Some near \<and>
    distance E (simh seed) (simh near) \<le> 6 \<and>
    (get_node_size (canonical_tag seed) = 0 \<or> get_node_size (canonical_tag near) = 0) \<longrightarrow>
      cluster_near E its key seed (nk # near_keys) visited cluster =
      cluster_near E its key seed near_keys (insert nk visited) (cluster @ [(nk, near)]))"
proof -
  have a: "\<forall>c \<in> set clusters. \<forall>(nk, near) \<in> set (tl c).
         distance E (simh (snd (hd c))) (simh near) \<le> 6 \<and>
         (0 < get_node_size (canonical_tag (snd (hd c))) \<and> 0 < get_node_size (canonical_tag near) \<longrightarrow>
            85 / 100 \<le>
              real (min (get_node_size (canonical_tag (snd (hd c)))) (get_node_size (canonical_tag near))) /
              real (max (get_node_size (canonical_tag (snd (hd c)))) (get_node_size (canonical_tag near))))"
    if "cluster_candidates E st = Inr clusters"
  proof -
    from cluster_candidates_Inr[OF that]
    have "\<forall>c \<in> set clusters. \<forall>(nk, near) \<in> set (tl c). accepted E (snd (hd c)) near"
      by (simp add: well_clustered_def)
    then show ?thesis
      by (fastforce simp: accepted_def SIMHASH_DISTANCE_def NODE_COUNT_SIMILARITY_def not_less)
  qed
  have b: "cluster_near E its key seed (nk # near_keys) visited cluster =
      cluster_near E its key seed near_keys (insert nk visited) (cluster @ [(nk, near)])"
    if "nk \<noteq> key" "nk \<notin> visited" "map_of its nk = Some near"
      "distance E (simh seed) (simh near) \<le> 6"
      "get_node_size (canonical_tag seed) = 0 \<or> get_node_size (canonical_tag near) = 0"
    using that by (auto simp: SIMHASH_DISTANCE_def Let_def)
  show ?thesis using a b by blast
qed

text \<open>On the twelve candidates the second member of the first cluster is at distance 0
  from its seed; the empty element and the element with one text, of sizes 0 and 1, are
  clustered together.\<close>

theorem acceptance_witness:
  "(\<exists>clusters. cluster_candidates E0 twelve = Inr clusters \<and>
      map (map fst) clusters = [[key_of 10, key_of 11], [key_of 2, key_of 3]] \<and>
      list_all (\<lambda>c. list_all (\<lambda>(nk, near). distance E0 (simh (snd (hd c))) (simh near) \<le> 6) (tl c))
        clusters) \<and>
   cluster_near E0 (items pair_state) (key_of 0) (candidate (py ''a.html'') (Tag (py ''div'') [] []))
     [key_of 1] {key_of 0} [(key_of 0, candidate (py ''a.html'') (Tag (py ''div'') [] []))] =
   Inr ([(key_of 0, candidate (py ''a.html'') (Tag (py ''div'') [] [])),
         (key_of 1, candidate (py ''b.html'') (Tag (py ''div'') [] [NavigableString (py ''x'')]))],
        {key_of 1, key_of 0})"
proof -
  have ev: "(case cluster_candidates E0 twelve of
      Inr clusters \<Rightarrow> map (map fst) clusters = [[key_of 10, key_of 11], [key_of 2, key_of 3]]
    | Inl e \<Rightarrow> False)"
    by code_simp
  then obtain clusters where
    cs: "cluster_candidates E0 twelve = Inr clusters"
      "map (map fst) clusters = [[key_of 10, key_of 11], [key_of 2, key_of 3]]"
    by (auto split: sum.splits)
  note t = acceptance[where E = E0 and st = twelve and clusters = clusters
      and nk = "key_of 1" and key = "key_of 0" and visited = "{key_of 0}"
      and its = "items pair_state"
      and near = "candidate (py ''b.html'') (Tag (py ''div'') [] [NavigableString (py ''x'')])"
      and seed = "candidate (py ''a.html'') (Tag (py ''div'') [] [])"
      and near_keys = "[]"
      and cluster = "[(key_of 0, candidate (py ''a.html'') (Tag (py ''div'') [] []))]"]
  from t cs(1) have "\<forall>c \<in> set clusters. \<forall>(nk, near) \<in> set (tl c).
      distance E0 (simh (snd (hd c))) (simh near) \<le> 6"
    by fast
  then have l: "list_all (\<lambda>c. list_all (\<lambda>(nk, near).
      distance E0 (simh (snd (hd c))) (simh near) \<le> 6) (tl c)) clusters"
    by (simp add: list_all_iff)
  have h: "key_of 1 \<noteq> key_of 0 \<and> key_of 1 \<notin> {key_of 0} \<and>
    map_of (items pair_state) (key_of 1) =
      Some (candidate (py ''b.html'') (Tag (py ''div'') [] [NavigableString (py ''x'')])) \<and>
    distance E0 (simh (candidate (py ''a.html'') (Tag (py ''div'') [] [])))
      (simh (candidate (py ''b.html'') (Tag (py ''div'') [] [NavigableString (py ''x'')]))) \<le> 6 \<and>
    (get_node_size (canonical_tag (candidate (py ''a.html'') (Tag (py ''div'') [] []))) = 0 \<or>
     get_node_size (canonical_tag
       (candidate (py ''b.html'') (Tag (py ''div'') [] [NavigableString (py ''x'')]))) = 0)"
    by code_simp
  from t h have "cluster_near E0 (items pair_state) (key_of 0)
     (candidate (py ''a.html'') (Tag (py ''div'') [] []))
     [key_of 1] {key_of 0} [(key_of 0, candidate (py ''a.html'') (Tag (py ''div'') [] []))] =
    cluster_near E0 (items pair_state) (key_of 0)
     (candidate (py ''a.html'') (Tag (py ''div'') [] []))
     [] (insert (key_of 1) {key_of 0})
     ([(key_of 0, candidate (py ''a.html'') (Tag (py ''div'') [] []))] @
      [(key_of 1, candidate (py ''b.html'') (Tag (py ''div'') [] [NavigableString (py ''x'')]))])"
    by blast
  then have fin: "cluster_near E0 (items pair_state) (key_of 0)
     (candidate (py ''a.html'') (Tag (py ''div'') [] []))
     [key_of 1] {key_of 0} [(key_of 0, candidate (py ''a.html'') (Tag (py ''div'') [] []))] =
   Inr ([(key_of 0, candidate (py ''a.html'') (Tag (py ''div'') [] [])),
         (key_of 1, candidate (py ''b.html'') (Tag (py ''div'') [] [NavigableString (py ''x'')]))],
        {key_of 1, key_of 0})"
    by simp
  have ex: "\<exists>clusters. cluster_candidates E0 twelve = Inr clusters \<and>
      map (map fst) clusters = [[key_of 10, key_of 11], [key_of 2, key_of 3]] \<and>
      list_all (\<lambda>c. list_all (\<lambda>(nk, near). distance E0 (simh (snd (hd c))) (simh near) \<le> 6) (tl c))
        clusters"
    by (rule exI[of _ clusters], intro conjI) (fact cs l)+
  show ?thesis by (rule conjI[OF ex fin])
qed

section \<open>Unique ids (C5)\<close>

























section \<open>Volatile attributes (C6)\<close>

text \<open>The four attributes that the loop over the elements always deletes.\<close>

lemma canon_attrs_volatile:
  assumes "k \<in> set [py ''id'', py ''aria-controls'', py ''aria-expanded'', py ''data-bs-toggle'']"
  shows "map_of (canon_attrs E a) k = None"
proof -
  define a1 where "a1 = canon_class E a"
  define D where "D = attrs_to_delete a1"
  define N where "N = attrs_to_normalize a1"
  have d: "is_dropped k" using assms by (auto simp: is_dropped_def)
  have na: "\<not> is_anchor (k, v)" for v using assms by (cases v) auto
  have N: "\<forall>(k', v) \<in> set N. v = Str (py ''#'')"
    by (auto simp: N_def attrs_to_normalize_def)
  have kN: "k \<notin> fst ` set N"
    using na by (auto simp: N_def attrs_to_normalize_def)
  have "map_of (filter (\<lambda>p. fst p \<notin> set D) a1) k = None"
  proof (cases "k \<in> set D")
    case True
    then show ?thesis by (simp add: map_of_filter_key)
  next
    case False
    have "k \<notin> fst ` set a1"
    proof
      assume "k \<in> fst ` set a1"
      then obtain v where "(k, v) \<in> set a1" by auto
      with d na have "k \<in> set D" by (force simp: D_def attrs_to_delete_def)
      with False show False by simp
    qed
    then have "map_of a1 k = None" by (simp add: map_of_eq_None_iff)
    with False show ?thesis by (simp add: map_of_filter_key)
  qed
  with kN fold_update_map_of[OF N, of "fold AList.delete D a1" k]
  show ?thesis
    by (simp add: canon_attrs_def Let_def a1_def D_def N_def fold_delete_filter)
qed

text \<open>Every element below the root of the canonical form is free of them.\<close>

lemma canon_el_volatile:
  assumes "k \<in> set [py ''id'', py ''aria-controls'', py ''aria-expanded'', py ''data-bs-toggle'']"
  shows "\<forall>el \<in> set (canon_el E t # descendants (canon_el E t)). map_of (tag_attrs el) k = None"
proof (induction t)
  case (Tag n a cs)
  then show ?case using canon_attrs_volatile[OF assms] by auto
qed simp_all

lemma normalize_strings_attrs:
  assumes "\<forall>el \<in> set (t # descendants t). map_of (tag_attrs el) k = None"
    and "x \<in> set (normalize_strings t)"
  shows "\<forall>el \<in> set (x # descendants x). map_of (tag_attrs el) k = None"
  using assms
proof (induction t arbitrary: x)
  case (Tag n a cs)
  have "\<forall>el \<in> set (y # descendants y). map_of (tag_attrs el) k = None"
    if "y \<in> set (concat (map normalize_strings cs))" for y
  proof -
    from that obtain c where c: "c \<in> set cs" "y \<in> set (normalize_strings c)" by auto
    have "\<forall>el \<in> set (c # descendants c). map_of (tag_attrs el) k = None"
      using Tag.prems(1) c(1) by auto
    from Tag.IH[OF c(1) this c(2)] show ?thesis .
  qed
  with Tag.prems show ?case by auto
next
  case (NavigableString s)
  then show ?case by (auto simp: normalized_text_def Let_def split: if_splits)
next
  case (Comment s)
  then show ?case by (auto simp: normalized_text_def Let_def split: if_splits)
qed

lemma canonical_descendants_clean:
  assumes "k \<in> set [py ''id'', py ''aria-controls'', py ''aria-expanded'', py ''data-bs-toggle'']"
    and "el \<in> set (descendants (canon_root E r))"
  shows "map_of (tag_attrs el) k = None"
proof (cases r)
  case (Tag n a cs)
  define cs1 where "cs1 = map remove_comments (filter (\<lambda>c. \<not> is_Comment c) cs)"
  have r: "canon_root E r = Tag n a (concat (map normalize_strings (map (canon_el E) cs1)))"
    by (simp add: Tag canon_root_def cs1_def)
  from assms(2) obtain y where y: "y \<in> set (concat (map normalize_strings (map (canon_el E) cs1)))"
    "el \<in> set (y # descendants y)"
    unfolding r by auto
  then obtain c where c: "y \<in> set (normalize_strings (canon_el E c))" by auto
  from normalize_strings_attrs[OF canon_el_volatile[OF assms(1)] c] y(2)
  show ?thesis by blast
next
  case (NavigableString s)
  with assms(2) show ?thesis by (simp add: canon_root_def)
next
  case (Comment s)
  with assms(2) show ?thesis by (simp add: canon_root_def)
qed

text \<open>
  C6. The canonical form holds no element, the root included, with an \<open>id\<close>,
  \<open>aria-controls\<close>, \<open>aria-expanded\<close> or \<open>data-bs-toggle\<close> attribute. The loop of
  \<open>_canonicalize\<close> runs over \<open>find_all(True)\<close>, the elements below the root (they are
  free of the four attributes, by \<open>canonical_descendants_clean\<close>): the \<open>id\<close> of the link is
  removed, the \<open>id\<close> of the root stays.
\<close>

theorem canonical_root_keeps_id:
  "canonicalize E0
     (Tag (py ''nav'') [(py ''id'', Str (py ''main-nav''))] [Tag (py ''a'') [(py ''id'', Str (py ''home''))] []]) =
   Some (Tag (py ''nav'') [(py ''id'', Str (py ''main-nav''))] [Tag (py ''a'') [] []])"
  by code_simp

section \<open>Idempotence of canonicalization (C7)\<close>

text \<open>
  C7, as the claim states it: re-canonicalizing the serialized canonical form gives a
  tree identical to the canonical form. After the comment between the two texts of the
  paragraph is removed, the canonical form holds two text nodes side by side; they are
  serialized as one text and parsed back as one node, so the second pass returns a
  paragraph with one text node, and the size of the tree drops from 3 to 2.
\<close>

theorem canonicalize_not_idempotent:
  "canonicalize E0 split_text =
     Some (Tag (py ''nav'') []
       [Tag (py ''p'') [] [NavigableString (py ''a''), NavigableString (py ''b'')]]) \<and>
   canonicalize E0 (Tag (py ''nav'') []
       [Tag (py ''p'') [] [NavigableString (py ''a''), NavigableString (py ''b'')]]) =
     Some (Tag (py ''nav'') [] [Tag (py ''p'') [] [NavigableString (py ''ab'')]]) \<and>
   get_node_size (Tag (py ''nav'') []
       [Tag (py ''p'') [] [NavigableString (py ''a''), NavigableString (py ''b'')]]) = 3 \<and>
   get_node_size (Tag (py ''nav'') [] [Tag (py ''p'') [] [NavigableString (py ''ab'')]]) = 2"
  by code_simp

text \<open>
  C7, amended. The normalisation that \<open>_canonicalize\<close> applies to the parsed copy is
  idempotent: applied to its own result it changes no attribute, class, comment or text
  node. Re-canonicalizing the serialized canonical form therefore gives the canonical
  form back whenever the parse of the serialized canonical form holds the canonical form
  as its root of that name (which fails where a removed comment left two text nodes side
  by side).
\<close>

theorem canonicalize_idempotent:
  "canon_root E (canon_root E r) = canon_root E r \<and>
   (canonicalize E tag = Some c \<and> find_child (tag_name c) (html_parser E c) = Some c \<longrightarrow>
      canonicalize E c = Some c)"
proof -
  have "canonicalize E c = Some c"
    if "canonicalize E tag = Some c" "find_child (tag_name c) (html_parser E c) = Some c"
  proof -
    from that(1) obtain r' where "c = canon_root E r'"
      by (auto simp: canonicalize_def split: option.splits)
    then have "canon_root E c = c" by (simp add: canon_root_idem)
    with that(2) show ?thesis by (simp add: canonicalize_def)
  qed
  then show ?thesis using canon_root_idem by blast
qed

theorem canonicalize_idempotent_witness:
  "canonicalize E0 menu =
     Some (Tag (py ''nav'') [(py ''id'', Str (py ''main''))]
       [Tag (py ''a'') [(py ''class'', Lst [py ''btn'', py ''nav-link'']), (py ''href'', Str (py ''#''))]
          [NavigableString (py ''Home page'')]]) \<and>
   canonicalize E0 (Tag (py ''nav'') [(py ''id'', Str (py ''main''))]
       [Tag (py ''a'') [(py ''class'', Lst [py ''btn'', py ''nav-link'']), (py ''href'', Str (py ''#''))]
          [NavigableString (py ''Home page'')]]) =
     Some (Tag (py ''nav'') [(py ''id'', Str (py ''main''))]
       [Tag (py ''a'') [(py ''class'', Lst [py ''btn'', py ''nav-link'']), (py ''href'', Str (py ''#''))]
          [NavigableString (py ''Home page'')]])"
proof -
  define c where "c = Tag (py ''nav'') [(py ''id'', Str (py ''main''))]
       [Tag (py ''a'') [(py ''class'', Lst [py ''btn'', py ''nav-link'']), (py ''href'', Str (py ''#''))]
          [NavigableString (py ''Home page'')]]"
  have a: "canonicalize E0 menu =
     Some (Tag (py ''nav'') [(py ''id'', Str (py ''main''))]
       [Tag (py ''a'') [(py ''class'', Lst [py ''btn'', py ''nav-link'']), (py ''href'', Str (py ''#''))]
          [NavigableString (py ''Home page'')]])"
    by code_simp
  have b: "find_child (tag_name (Tag (py ''nav'') [(py ''id'', Str (py ''main''))]
       [Tag (py ''a'') [(py ''class'', Lst [py ''btn'', py ''nav-link'']), (py ''href'', Str (py ''#''))]
          [NavigableString (py ''Home page'')]]))
      (html_parser E0 (Tag (py ''nav'') [(py ''id'', Str (py ''main''))]
       [Tag (py ''a'') [(py ''class'', Lst [py ''btn'', py ''nav-link'']), (py ''href'', Str (py ''#''))]
          [NavigableString (py ''Home page'')]])) =
     Some (Tag (py ''nav'') [(py ''id'', Str (py ''main''))]
       [Tag (py ''a'') [(py ''class'', Lst [py ''btn'', py ''nav-link'']), (py ''href'', Str (py ''#''))]
          [NavigableString (py ''Home page'')]])"
    by code_simp
  from canonicalize_idempotent[where E = E0 and tag = menu and c = c and r = menu] a b
  have "canonicalize E0 c = Some c" unfolding c_def by blast
  with a show ?thesis unfolding c_def by (rule conjI)
qed

section \<open>Head and footer of identical documents (C8)\<close>

lemma intersection_replicate:
  "0 < n \<Longrightarrow> intersection (replicate n X) = remdups X"
  by (cases n) (auto simp: intersection_def intro: filter_True)

lemma lookup_all_defined:
  "\<forall>k \<in> set ks. rep k \<noteq> None \<Longrightarrow> lookup_all rep ks = Inr (map (\<lambda>k. the (rep k)) ks)"
  by (induction ks) auto

lemma map_of_diag:
  "map_of (map (\<lambda>x. (f x, f x)) xs) k = (if k \<in> f ` set xs then Some k else None)"
  by (induction xs) auto

lemma rep_of_replicate:
  assumes "0 < n" "k \<in> str_of E ` set (find_all nm head)"
  shows "rep_of E nm (replicate n head) k = Some k"
proof -
  let ?m = "map_of (rev (map (\<lambda>m. (str_of E m, str_of E m)) (find_all nm head)))"
  have "rev (map (\<lambda>m. (str_of E m, str_of E m)) (find_all nm head)) =
      map (\<lambda>m. (str_of E m, str_of E m)) (rev (find_all nm head))"
    by (simp add: rev_map)
  then have m: "?m k = Some k"
    using assms(2) map_of_diag[of "str_of E" "rev (find_all nm head)" k] by simp
  define g where "g = (\<lambda>(h :: node) (rep :: pystr \<rightharpoonup> pystr).
      rep ++ map_of (rev (map (\<lambda>m. (str_of E m, str_of E m)) (find_all nm h))))"
  have one: "g head r k = Some k" for r
    using m by (simp add: g_def map_add_def)
  have "fold g (replicate n head) r k = Some k" for r
    using assms(1)
  proof (induction n arbitrary: r)
    case 0
    then show ?case by simp
  next
    case (Suc n)
    have e: "fold g (replicate (Suc n) head) r = fold g (replicate n head) (g head r)"
      by (simp only: replicate_Suc fold_Cons comp_apply)
    show ?case
    proof (cases "n = 0")
      case True
      have "fold g (replicate n head) (g head r) = g head r"
        by (simp only: True replicate_0 fold_Nil id_apply)
      with one[of r] e show ?thesis by (simp only:)
    next
      case False
      then have "0 < n" by simp
      from Suc.IH[OF this, of "g head r"] e show ?thesis by (simp only:)
    qed
  qed
  then show ?thesis unfolding rep_of_def g_def .
qed

text \<open>The lines written for one kind of element when all the heads are the same: the
  serialised elements of the set, sorted.\<close>

lemma common_lines:
  assumes "0 < n" "set X \<subseteq> str_of E ` set (find_all nm head)"
  shows "lookup_all (rep_of E nm (replicate n head)) (sort (intersection (replicate n X))) =
           Inr (sort (remdups X))"
proof -
  have i: "intersection (replicate n X) = remdups X"
    using assms(1) by (rule intersection_replicate)
  have r: "\<forall>k \<in> set (sort (remdups X)). rep_of E nm (replicate n head) k = Some k"
  proof
    fix k assume "k \<in> set (sort (remdups X))"
    then have "k \<in> str_of E ` set (find_all nm head)" using assms(2) by auto
    then show "rep_of E nm (replicate n head) k = Some k"
      by (rule rep_of_replicate[OF assms(1)])
  qed
  then have "\<forall>k \<in> set (sort (remdups X)). rep_of E nm (replicate n head) k \<noteq> None" by simp
  from lookup_all_defined[OF this]
  have "lookup_all (rep_of E nm (replicate n head)) (sort (remdups X)) =
      Inr (map (\<lambda>k. the (rep_of E nm (replicate n head) k)) (sort (remdups X)))" .
  moreover have "map (\<lambda>k. the (rep_of E nm (replicate n head) k)) (sort (remdups X)) =
      sort (remdups X)"
    by (rule map_idI) (use r in simp)
  ultimately show ?thesis by (simp only: i)
qed

lemma inner_fold_src:
  "(\<exists>s' \<in> set scripts. src_of s' = Some v \<and>
      fold (\<lambda>s rep. rep(the (src_of s) \<mapsto> str_of E s)) scripts rep0 v = Some (str_of E s')) \<or>
   ((\<forall>s \<in> set scripts. src_of s \<noteq> Some v) \<and>
      fold (\<lambda>s rep. rep(the (src_of s) \<mapsto> str_of E s)) scripts rep0 v = rep0 v)"
  if "\<forall>s \<in> set scripts. src_of s \<noteq> None"
  using that
proof (induction scripts arbitrary: rep0)
  case Nil
  then show ?case by simp
next
  case (Cons s scripts)
  from Cons.prems obtain u where u: "src_of s = Some u" by auto
  from Cons.prems have rest: "\<forall>s \<in> set scripts. src_of s \<noteq> None" by simp
  from Cons.IH[OF rest, of "rep0(the (src_of s) \<mapsto> str_of E s)"] u
  show ?case by (auto split: if_splits)
qed

lemma footer_rep:
  assumes "0 < n" "s \<in> set (body_scripts b)" "src_of s = Some v"
  shows "\<exists>s' \<in> set (body_scripts b). src_of s' = Some v \<and>
           rep_script_footer E (replicate n b) v = Some (str_of E s')"
proof -
  let ?pass = "\<lambda>b rep. fold (\<lambda>s rep. rep(the (src_of s) \<mapsto> str_of E s)) (body_scripts b) rep"
  have nn: "\<forall>s \<in> set (body_scripts b). src_of s \<noteq> None"
    by (simp add: body_scripts_def)
  have one: "\<exists>s' \<in> set (body_scripts b). src_of s' = Some v \<and> ?pass b r v = Some (str_of E s')" for r
    using inner_fold_src[OF nn, of v E r] assms(2,3) by blast
  have "\<exists>s' \<in> set (body_scripts b). src_of s' = Some v \<and>
      fold ?pass (replicate n b) r v = Some (str_of E s')" for r
    using assms(1)
  proof (induction n arbitrary: r)
    case 0
    then show ?case by simp
  next
    case (Suc n)
    have e: "fold ?pass (replicate (Suc n) b) r = fold ?pass (replicate n b) (?pass b r)"
      by (simp only: replicate_Suc fold_Cons comp_apply)
    show ?case
    proof (cases "n = 0")
      case True
      have "fold ?pass (replicate n b) (?pass b r) = ?pass b r"
        by (simp only: True replicate_0 fold_Nil id_apply)
      with one[of r] e show ?thesis by (simp only:)
    next
      case False
      then have "0 < n" by simp
      from Suc.IH[OF this, of "?pass b r"] e show ?thesis by (simp only:)
    qed
  qed
  then show ?thesis by (simp add: rep_script_footer_def)
qed

lemma map_filter_replicate:
  "f x = Some y \<Longrightarrow> List.map_filter f (replicate n x) = replicate n y"
  by (induction n) (simp_all add: List.map_filter_simps)

text \<open>What the extractor returns on copies of one document.\<close>

lemma identical_documents:
  assumes ps: "ps \<noteq> []"
    and head: "find_first (py ''head'') soup = Some head"
    and body: "find_first (py ''body'') soup = Some b"
  shows "\<exists>fr. extract_common_head_and_footer E (map (\<lambda>p. (p, soup)) ps) = Inr fr \<and>
      set (title_meta fr) = {title_line (common_suffix fr)} \<union> set (metas E head) \<union> set (links E head) \<and>
      set (head_css fr) =
        set (map (str_of E) (filter rel_stylesheet (find_all (py ''link'') head))) \<union>
        set (styles E head) \<union> set (h_scripts E head) \<and>
      footer_scripts fr =
        map (\<lambda>v. the (rep_script_footer E (replicate (length ps) b) v))
          (sort (remdups (List.map_filter src_of (body_scripts b))))"
proof -
  let ?docs = "map (\<lambda>p. (p, soup)) ps"
  let ?n = "length ps"
  have n: "0 < ?n" using ps by simp
  have hs: "heads_of ?docs = replicate ?n head"
    using map_filter_replicate[of "\<lambda>(p, soup). find_first (py ''head'') soup" _ head ?n] head
    by (simp add: heads_of_def List.map_filter_def comp_def map_replicate_const)
  have bs: "bodies_of ?docs = replicate ?n b"
    using body by (simp add: bodies_of_def List.map_filter_def comp_def map_replicate_const)
  have fs: "first_stylesheets E ?docs =
      map (str_of E) (filter rel_stylesheet (find_all (py ''link'') head))"
    using ps head by (cases ps) (simp_all add: first_stylesheets_def)
  have m: "lookup_all (rep_of E (py ''meta'') (replicate ?n head))
      (sort (intersection (replicate ?n (metas E head)))) = Inr (sort (remdups (metas E head)))"
    by (rule common_lines[OF n]) (auto simp: metas_def)
  have l: "lookup_all (rep_of E (py ''link'') (replicate ?n head))
      (sort (intersection (replicate ?n (links E head)))) = Inr (sort (remdups (links E head)))"
    by (rule common_lines[OF n]) (auto simp: links_def)
  have s: "lookup_all (rep_of E (py ''style'') (replicate ?n head))
      (sort (intersection (replicate ?n (styles E head)))) = Inr (sort (remdups (styles E head)))"
    by (rule common_lines[OF n]) (auto simp: styles_def)
  have h: "lookup_all (rep_of E (py ''script'') (replicate ?n head))
      (sort (intersection (replicate ?n (h_scripts E head)))) =
        Inr (sort (remdups (h_scripts E head)))"
    by (rule common_lines[OF n]) (auto simp: h_scripts_def)
  let ?srcs = "List.map_filter src_of (body_scripts b)"
  have js: "intersection (replicate ?n ?srcs) = remdups ?srcs"
    using n by (rule intersection_replicate)
  have "\<forall>v \<in> set (sort (remdups ?srcs)). rep_script_footer E (replicate ?n b) v \<noteq> None"
  proof
    fix v assume "v \<in> set (sort (remdups ?srcs))"
    then obtain s where "s \<in> set (body_scripts b)" "src_of s = Some v"
      by (auto simp: List.map_filter_def)
    from footer_rep[OF n this] show "rep_script_footer E (replicate ?n b) v \<noteq> None" by auto
  qed
  from lookup_all_defined[OF this]
  have f: "lookup_all (rep_script_footer E (replicate ?n b)) (sort (remdups ?srcs)) =
      Inr (map (\<lambda>v. the (rep_script_footer E (replicate ?n b) v)) (sort (remdups ?srcs)))" .
  show ?thesis
    unfolding extract_common_head_and_footer_def Let_def hs bs map_replicate fs m l s h js f
    by (auto simp: Un_ac)
qed

text \<open>
  C8, as the claim states it: for a corpus of identical documents the common-head
  fragments hold every meta element and every head script of the document. Two copies of
  a page with \<open><meta charset="utf-8">\<close> and an empty script in the head give a
  title-and-meta fragment with the title line, the author and the icon link, and a CSS
  fragment with the stylesheet link: the extractor leaves out a meta element with a
  charset and a script without source and body.
\<close>

theorem charset_meta_not_extracted:
  "(case extract_common_head_and_footer E0 site of
      Inr fr \<Rightarrow> (title_meta fr, head_css fr) | Inl e \<Rightarrow> ([], [])) =
     ([py ''<title>{{ page_title }}</title>'', markup author_meta, markup icon_link],
      [markup css_link]) \<and>
   charset_meta \<in> set (find_all (py ''meta'') site_head) \<and>
   markup charset_meta \<notin>
     set [py ''<title>{{ page_title }}</title>'', markup author_meta, markup icon_link,
          markup css_link]"
  by code_simp

text \<open>
  C8, amended. For a corpus in which every document is the same, with a head and a body,
  the extractor returns fragments, and the common-head fragments together hold every meta
  element of the head without a charset, every link element, every style element and
  every head script that has a source or a body; the common-footer fragment holds, for
  every script of the body that has a source, a script of the body with that source.
\<close>

theorem identical_documents_round_trip:
  "ps \<noteq> [] \<and> find_first (py ''head'') soup = Some head \<and>
   find_first (py ''body'') soup = Some b \<longrightarrow>
   (\<exists>fr. extract_common_head_and_footer E (map (\<lambda>p. (p, soup)) ps) = Inr fr \<and>
      (\<forall>m \<in> set (find_all (py ''meta'') head).
         \<not> truthy (map_of (tag_attrs m) (py ''charset'')) \<longrightarrow> str_of E m \<in> set (title_meta fr)) \<and>
      (\<forall>l \<in> set (find_all (py ''link'') head).
         str_of E l \<in> set (title_meta fr) \<union> set (head_css fr)) \<and>
      (\<forall>s \<in> set (find_all (py ''style'') head). str_of E s \<in> set (head_css fr)) \<and>
      (\<forall>s \<in> set (find_all (py ''script'') head).
         truthy (map_of (tag_attrs s) (py ''src'')) \<or> has_string s \<longrightarrow>
         str_of E s \<in> set (head_css fr)) \<and>
      (\<forall>s \<in> set (body_scripts b).
         \<exists>s' \<in> set (body_scripts b). src_of s' = src_of s \<and> str_of E s' \<in> set (footer_scripts fr)))"
proof
  assume a: "ps \<noteq> [] \<and> find_first (py ''head'') soup = Some head \<and>
    find_first (py ''body'') soup = Some b"
  then have n: "0 < length ps" by simp
  from a identical_documents[of ps soup head b E] obtain fr where
    fr: "extract_common_head_and_footer E (map (\<lambda>p. (p, soup)) ps) = Inr fr"
    and tm: "set (title_meta fr) =
      {title_line (common_suffix fr)} \<union> set (metas E head) \<union> set (links E head)"
    and hc: "set (head_css fr) =
        set (map (str_of E) (filter rel_stylesheet (find_all (py ''link'') head))) \<union>
        set (styles E head) \<union> set (h_scripts E head)"
    and fo: "footer_scripts fr =
        map (\<lambda>v. the (rep_script_footer E (replicate (length ps) b) v))
          (sort (remdups (List.map_filter src_of (body_scripts b))))"
    by blast
  have m: "str_of E m \<in> set (title_meta fr)"
    if "m \<in> set (find_all (py ''meta'') head)" "\<not> truthy (map_of (tag_attrs m) (py ''charset''))"
    for m
    using that unfolding tm by (simp add: metas_def)
  have l: "str_of E l \<in> set (title_meta fr) \<union> set (head_css fr)"
    if "l \<in> set (find_all (py ''link'') head)" for l
  proof (cases "map_of (tag_attrs l) (py ''rel'') = Some (Lst [py ''stylesheet''])")
    case True
    then have "rel_stylesheet l" by simp
    with that show ?thesis unfolding hc by simp
  next
    case False
    with that show ?thesis unfolding tm by (simp add: links_def)
  qed
  have s: "str_of E s \<in> set (head_css fr)" if "s \<in> set (find_all (py ''style'') head)" for s
    using that unfolding hc by (simp add: styles_def)
  have h: "str_of E s \<in> set (head_css fr)"
    if "s \<in> set (find_all (py ''script'') head)"
      "truthy (map_of (tag_attrs s) (py ''src'')) \<or> has_string s" for s
    using that unfolding hc by (simp add: h_scripts_def)
  have f: "\<exists>s' \<in> set (body_scripts b). src_of s' = src_of s \<and> str_of E s' \<in> set (footer_scripts fr)"
    if "s \<in> set (body_scripts b)" for s
  proof -
    from that obtain v where v: "src_of s = Some v" by (auto simp: body_scripts_def)
    from footer_rep[OF n that v, of E] obtain s' where s':
      "s' \<in> set (body_scripts b)" "src_of s' = Some v"
      "rep_script_footer E (replicate (length ps) b) v = Some (str_of E s')" by blast
    have "v \<in> set (sort (remdups (List.map_filter src_of (body_scripts b))))"
      using that v by (force simp: List.map_filter_def)
    then have "the (rep_script_footer E (replicate (length ps) b) v) \<in> set (footer_scripts fr)"
      unfolding fo by simp
    with s' v show ?thesis by auto
  qed
  show "\<exists>fr. extract_common_head_and_footer E (map (\<lambda>p. (p, soup)) ps) = Inr fr \<and>
      (\<forall>m \<in> set (find_all (py ''meta'') head).
         \<not> truthy (map_of (tag_attrs m) (py ''charset'')) \<longrightarrow> str_of E m \<in> set (title_meta fr)) \<and>
      (\<forall>l \<in> set (find_all (py ''link'') head).
         str_of E l \<in> set (title_meta fr) \<union> set (head_css fr)) \<and>
      (\<forall>s \<in> set (find_all (py ''style'') head). str_of E s \<in> set (head_css fr)) \<and>
      (\<forall>s \<in> set (find_all (py ''script'') head).
         truthy (map_of (tag_attrs s) (py ''src'')) \<or> has_string s \<longrightarrow>
         str_of E s \<in> set (head_css fr)) \<and>
      (\<forall>s \<in> set (body_scripts b).
         \<exists>s' \<in> set (body_scripts b). src_of s' = src_of s \<and> str_of E s' \<in> set (footer_scripts fr))"
    using fr m l s h f by (intro exI[of _ fr]) blast
qed

text \<open>On the two copies of the page: the author, both links and the script of the body
  are in the fragments.\<close>

theorem identical_documents_witness:
  "\<exists>fr. extract_common_head_and_footer E0 site = Inr fr \<and>
     markup author_meta \<in> set (title_meta fr) \<and>
     markup icon_link \<in> set (title_meta fr) \<union> set (head_css fr) \<and>
     markup css_link \<in> set (title_meta fr) \<union> set (head_css fr) \<and>
     markup app_script \<in> set (footer_scripts fr)"
proof -
  have hyp: "[py ''a.html'', py ''b.html''] \<noteq> [] \<and>
      find_first (py ''head'') site_page = Some site_head \<and>
      find_first (py ''body'') site_page = Some site_body"
    by code_simp
  have docs: "map (\<lambda>p. (p, site_page)) [py ''a.html'', py ''b.html''] = site"
    by (simp add: site_def)
  from identical_documents_round_trip[where ps = "[py ''a.html'', py ''b.html'']"
      and soup = site_page and head = site_head and b = site_body and E = E0] hyp
  obtain fr where fr: "extract_common_head_and_footer E0 site = Inr fr"
    and m: "\<forall>m \<in> set (find_all (py ''meta'') site_head).
         \<not> truthy (map_of (tag_attrs m) (py ''charset'')) \<longrightarrow> str_of E0 m \<in> set (title_meta fr)"
    and l: "\<forall>l \<in> set (find_all (py ''link'') site_head).
         str_of E0 l \<in> set (title_meta fr) \<union> set (head_css fr)"
    and f: "\<forall>s \<in> set (body_scripts site_body).
         \<exists>s' \<in> set (body_scripts site_body).
           src_of s' = src_of s \<and> str_of E0 s' \<in> set (footer_scripts fr)"
    unfolding docs by blast
  have e: "str_of E0 = markup" by (simp add: E0_def)
  have m1: "author_meta \<in> set (find_all (py ''meta'') site_head) \<and>
      \<not> truthy (map_of (tag_attrs author_meta) (py ''charset''))"
    by code_simp
  have l1: "icon_link \<in> set (find_all (py ''link'') site_head) \<and>
      css_link \<in> set (find_all (py ''link'') site_head)"
    by code_simp
  have f1: "body_scripts site_body = [app_script]"
    by code_simp
  from m m1 have r1: "markup author_meta \<in> set (title_meta fr)" unfolding e by blast
  from l l1 have r2: "markup icon_link \<in> set (title_meta fr) \<union> set (head_css fr)"
    and r3: "markup css_link \<in> set (title_meta fr) \<union> set (head_css fr)"
    unfolding e by blast+
  from f have r4: "markup app_script \<in> set (footer_scripts fr)"
    unfolding f1 e by simp
  show ?thesis
    by (rule exI[of _ fr], intro conjI) (fact fr r1 r2 r3 r4)+
qed

section \<open>Title suffix (C9)\<close>

lemma remdups_single:
  assumes "length (remdups xs) = 1"
  shows "\<forall>x \<in> set xs. x = hd (remdups xs)"
proof -
  from assms obtain c where c: "remdups xs = [c]"
    by (cases "remdups xs") auto
  then have "set (remdups xs) = {c}" by simp
  then have "set xs = {c}" by simp
  with c show ?thesis by simp
qed

lemma remdups_not_single:
  assumes "xs \<noteq> []" "\<forall>x \<in> set xs. x = c"
  shows "length (remdups xs) = 1"
proof -
  from assms have "set xs = {c}" by (cases xs) auto
  then have "card (set xs) = 1" by simp
  then show ?thesis by (simp add: length_remdups_card_conv)
qed

lemma suffix_loop_prefix:
  assumes rv: "rv \<noteq> []" and le: "\<forall>s \<in> set rv. m \<le> length s"
    and ex: "\<exists>s \<in> set rv. length s = m"
  shows "k \<le> m \<Longrightarrow> \<forall>s \<in> set rv. take k s = sfx \<Longrightarrow>
    (\<forall>s \<in> set rv. prefix (suffix_loop rv [k ..< m] sfx) s) \<and>
    (\<forall>x. (\<forall>s \<in> set rv. prefix x s) \<longrightarrow> prefix x (suffix_loop rv [k ..< m] sfx))"
proof (induction "m - k" arbitrary: k sfx)
  case 0
  then have km: "k = m" by simp
  have a: "\<forall>s \<in> set rv. prefix sfx s"
    using "0.prems"(2) take_is_prefix by fastforce
  have b: "prefix x sfx" if x: "\<forall>s \<in> set rv. prefix x s" for x
  proof -
    from ex obtain s where s: "s \<in> set rv" "length s = m" by blast
    then have "sfx = s" using "0.prems"(2) km by auto
    with x s show ?thesis by simp
  qed
  show ?case using a b km by simp
next
  case (Suc d)
  then have lt: "k < m" by simp
  then have upt: "[k ..< m] = k # [Suc k ..< m]" by (simp add: upt_conv_Cons)
  let ?chars = "remdups (map (\<lambda>s. s ! k) rv)"
  show ?case
  proof (cases "length ?chars = 1")
    case True
    have tk: "take (Suc k) s = sfx @ [hd ?chars]" if "s \<in> set rv" for s
    proof -
      have "k < length s" using le that lt by fastforce
      moreover have "s ! k = hd ?chars" using remdups_single[OF True] that by simp
      ultimately show ?thesis using Suc.prems(2) that by (simp add: take_Suc_conv_app_nth)
    qed
    have "d = m - Suc k" using Suc.hyps(2) by simp
    from Suc.hyps(1)[OF this, of "sfx @ [hd ?chars]"] lt tk
    show ?thesis using True upt by simp
  next
    case False
    have a: "\<forall>s \<in> set rv. prefix sfx s"
      using Suc.prems(2) take_is_prefix by fastforce
    have b: "prefix x sfx" if x: "\<forall>s \<in> set rv. prefix x s" for x
    proof (rule ccontr)
      assume n: "\<not> prefix x sfx"
      obtain s0 where s0: "s0 \<in> set rv" using rv by (cases rv) auto
      have len: "k < length x"
      proof (rule ccontr)
        assume "\<not> k < length x"
        then have "length x \<le> k" by simp
        moreover have "prefix x s0" using x s0 by simp
        ultimately have "prefix x (take k s0)"
          by (auto simp: prefix_def)
        then show False using n Suc.prems(2) s0 by simp
      qed
      have "s ! k = x ! k" if "s \<in> set rv" for s
      proof -
        from x that obtain z where "s = x @ z" by (auto simp: prefix_def)
        then show ?thesis using len by (simp add: nth_append)
      qed
      then have "\<forall>c \<in> set (map (\<lambda>s. s ! k) rv). c = x ! k" by auto
      then have "length ?chars = 1"
        using remdups_not_single[of "map (\<lambda>s. s ! k) rv" "x ! k"] rv by simp
      with False show False by simp
    qed
    show ?thesis using False upt a b by simp
  qed
qed

lemma longest_common_suffix_spec:
  assumes "strings \<noteq> []"
  shows "(\<forall>s \<in> set strings. suffix (longest_common_suffix strings) s) \<and>
    (\<forall>x. (\<forall>s \<in> set strings. suffix x s) \<longrightarrow> suffix x (longest_common_suffix strings))"
proof -
  let ?rv = "map rev strings"
  let ?m = "Min (set (map length ?rv))"
  have fin: "finite (set (map length ?rv))" "set (map length ?rv) \<noteq> {}"
    using assms by auto
  have le: "\<forall>s \<in> set ?rv. ?m \<le> length s"
    using fin by (auto intro: Min_le)
  have "?m \<in> set (map length ?rv)" using Min_in[OF fin] .
  then have ex: "\<exists>s \<in> set ?rv. length s = ?m" by auto
  have rv: "?rv \<noteq> []" using assms by simp
  from suffix_loop_prefix[OF rv le ex, of 0 "[]"]
  have p: "\<forall>s \<in> set ?rv. prefix (suffix_loop ?rv [0 ..< ?m] []) s"
    and q: "\<And>x. (\<forall>s \<in> set ?rv. prefix x s) \<Longrightarrow> prefix x (suffix_loop ?rv [0 ..< ?m] [])"
    by auto
  have l: "longest_common_suffix strings = rev (suffix_loop ?rv [0 ..< ?m] [])"
    by (simp only: longest_common_suffix_def Let_def assms if_False)
  have a: "suffix (longest_common_suffix strings) s" if "s \<in> set strings" for s
    using p that unfolding l by (simp add: suffix_to_prefix)
  have b: "suffix x (longest_common_suffix strings)"
    if "\<forall>s \<in> set strings. suffix x s" for x
  proof -
    have "\<forall>s \<in> set ?rv. prefix (rev x) s" using that by (simp add: suffix_to_prefix)
    from q[OF this] show ?thesis unfolding l by (simp add: suffix_to_prefix)
  qed
  show ?thesis using a b by blast
qed

text \<open>
  C9, as the claim states it: for the titles \<open>Home - Acme Inc.\<close> and
  \<open>About - Acme Inc.\<close> the detected shared suffix is \<open>Acme Inc.\<close>. The longest common
  suffix of the two titles, character by character, begins at the space before the dash.
\<close>

theorem acme_suffix_counterexample:
  "longest_common_suffix [home_title, about_title] \<noteq> py ''Acme Inc.''"
  by code_simp

text \<open>
  C9, amended. For a non-empty list of titles the shared suffix is the longest string that
  is a suffix of every title: it is a suffix of each, and every common suffix is a suffix
  of it. The extractor stores this suffix, and as the residual title of a page its title
  without the suffix and with spaces, bars and hyphens stripped from both ends, or the
  title unchanged when the suffix is empty. For the titles \<open>Home - Acme Inc.\<close> and
  \<open>About - Acme Inc.\<close> the suffix is \<open> - Acme Inc.\<close>, separator included, and the
  residual titles are \<open>Home\<close> and \<open>About\<close>.
\<close>

theorem title_suffix:
  "(strings \<noteq> [] \<longrightarrow>
      (\<forall>s \<in> set strings. suffix (longest_common_suffix strings) s) \<and>
      (\<forall>x. (\<forall>s \<in> set strings. suffix x s) \<longrightarrow> suffix x (longest_common_suffix strings))) \<and>
   (extract_common_head_and_footer E docs = Inr fr \<longrightarrow>
      common_suffix fr = longest_common_suffix (map title_of (heads_of docs)) \<and>
      page_titles fr =
        map (\<lambda>((p, soup), t). (p, residual_title (common_suffix fr) t))
          (zip docs (map title_of (heads_of docs)))) \<and>
   residual_title [] t = t \<and>
   (sfx \<noteq> [] \<longrightarrow>
      residual_title sfx t =
        strip_chars (\<lambda>c. c \<in> set (py '' |-'')) (take (length t - length sfx) t)) \<and>
   longest_common_suffix [home_title, about_title] = py '' '' @ [8212] @ py '' Acme Inc.'' \<and>
   (case extract_common_head_and_footer E0 acme_pages of
      Inr fr \<Rightarrow> page_titles fr | Inl e \<Rightarrow> []) =
     [(py ''about.html'', py ''About''), (py ''home.html'', py ''Home'')]"
proof -
  have a: "strings \<noteq> [] \<longrightarrow>
      (\<forall>s \<in> set strings. suffix (longest_common_suffix strings) s) \<and>
      (\<forall>x. (\<forall>s \<in> set strings. suffix x s) \<longrightarrow> suffix x (longest_common_suffix strings))"
    using longest_common_suffix_spec by blast
  have b: "extract_common_head_and_footer E docs = Inr fr \<longrightarrow>
      common_suffix fr = longest_common_suffix (map title_of (heads_of docs)) \<and>
      page_titles fr =
        map (\<lambda>((p, soup), t). (p, residual_title (common_suffix fr) t))
          (zip docs (map title_of (heads_of docs)))"
    by (auto simp: extract_common_head_and_footer_def Let_def split: sum.splits)
  have c: "residual_title [] t = t"
    by (simp add: residual_title_def)
  have d: "sfx \<noteq> [] \<longrightarrow>
      residual_title sfx t =
        strip_chars (\<lambda>c. c \<in> set (py '' |-'')) (take (length t - length sfx) t)"
    by (simp add: residual_title_def)
  have e: "longest_common_suffix [home_title, about_title] = py '' '' @ [8212] @ py '' Acme Inc.''"
    by code_simp
  have f: "(case extract_common_head_and_footer E0 acme_pages of
      Inr fr \<Rightarrow> page_titles fr | Inl e \<Rightarrow> []) =
     [(py ''about.html'', py ''About''), (py ''home.html'', py ''Home'')]"
    by code_simp
  show ?thesis using a b c d e f by blast
qed

theorem title_suffix_witness:
  "suffix (longest_common_suffix [home_title, about_title]) home_title \<and>
   suffix (longest_common_suffix [home_title, about_title]) about_title \<and>
   residual_title (py '' '' @ [8212] @ py '' Acme Inc.'') home_title = py ''Home''"
proof -
  note t = title_suffix[of "[home_title, about_title]" E0 acme_pages undefined home_title
        "py '' '' @ [8212] @ py '' Acme Inc.''"]
  have n: "[home_title, about_title] \<noteq> []" by simp
  from t n have s: "\<forall>s \<in> set [home_title, about_title].
      suffix (longest_common_suffix [home_title, about_title]) s"
    by blast
  have s1: "suffix (longest_common_suffix [home_title, about_title]) home_title"
    and s2: "suffix (longest_common_suffix [home_title, about_title]) about_title"
    using s by simp_all
  have m: "py '' '' @ [8212] @ py '' Acme Inc.'' \<noteq> []" by simp
  from t m have res: "residual_title (py '' '' @ [8212] @ py '' Acme Inc.'') home_title =
      strip_chars (\<lambda>c. c \<in> set (py '' |-''))
       (take (length home_title - length (py '' '' @ [8212] @ py '' Acme Inc.'')) home_title)"
    by blast
  have r: "strip_chars (\<lambda>c. c \<in> set (py '' |-''))
       (take (length home_title - length (py '' '' @ [8212] @ py '' Acme Inc.'')) home_title) = py ''Home''"
    by code_simp
  show ?thesis using s1 s2 res r by (simp only: simp_thms)
qed

section \<open>Missing markers (C10)\<close>

lemma walk_descendant:
  "q \<in> set (walk p t) \<Longrightarrow>
     \<exists>q' d. q = p @ q' \<and> subtree_at t q' = Some d \<and> d \<in> set (descendants t)"
  "q \<in> set (walk_list p i cs) \<Longrightarrow>
     \<exists>j q' d. q = p @ (i + j) # q' \<and> j < length cs \<and> subtree_at (cs ! j) q' = Some d \<and>
       d \<in> set (cs ! j # descendants (cs ! j))"
proof (induction p t and p i cs arbitrary: q and q rule: walk_walk_list.induct)
  case (1 p n a cs)
  then obtain j q' d where j: "q = p @ (0 + j) # q'" "j < length cs"
    "subtree_at (cs ! j) q' = Some d" "d \<in> set (cs ! j # descendants (cs ! j))"
    by fastforce
  have "d \<in> set (descendants (Tag n a cs))"
    using j(2,4) by (auto intro!: bexI[of _ "cs ! j"])
  moreover have "subtree_at (Tag n a cs) (j # q') = Some d"
    using j(2,3) by simp
  ultimately show ?case using j(1) by (metis add_0)
next
  case (5 p i c cs)
  from "5.prems" consider "q = p @ [i]" | "q \<in> set (walk (p @ [i]) c)"
    | "q \<in> set (walk_list p (Suc i) cs)" by auto
  then show ?case
  proof cases
    case 1
    then show ?thesis
      by (intro exI[of _ 0] exI[of _ "[]"] exI[of _ c]) simp
  next
    case 2
    from "5.IH"(1)[OF this] obtain q' d where
      "q = (p @ [i]) @ q'" "subtree_at c q' = Some d" "d \<in> set (descendants c)" by blast
    then show ?thesis
      by (intro exI[of _ 0] exI[of _ q'] exI[of _ d]) simp
  next
    case 3
    from "5.IH"(2)[OF this] obtain j q' d where
      "q = p @ (Suc i + j) # q'" "j < length cs" "subtree_at (cs ! j) q' = Some d"
      "d \<in> set (cs ! j # descendants (cs ! j))" by blast
    then show ?thesis
      by (intro exI[of _ "Suc j"] exI[of _ q'] exI[of _ d]) simp
  qed
qed simp_all

lemma find_path_None:
  assumes "\<forall>t \<in> set (descendants soup). \<not> P t"
  shows "find_path soup P = None"
proof -
  have "\<not> holds_at soup P q" if "q \<in> set (walk [] soup)" for q
  proof -
    from walk_descendant(1)[OF that] obtain d where
      "subtree_at soup q = Some d" "d \<in> set (descendants soup)" by auto
    with assms show ?thesis by (simp add: holds_at_def)
  qed
  then show ?thesis by (simp add: find_path_def find_None_iff)
qed

text \<open>
  C10. The rewriter tolerates a missing marker: when no element of the live tree of the
  document carries \<open>data-refactor-id\<close> with the id of an instance, the replacement of
  that instance leaves the document as it is (the step has no failing branch: the result
  is a document in every case), and a replacement that changes the document found an
  element carrying the id. The same holds for all the instances of a cluster in a page.
\<close>

theorem missing_marker_leaves_document:
  "((\<forall>t \<in> set (descendants soup). \<not> marked ref_id t) \<longrightarrow>
      replace_instance include_stmt ref_id soup = soup) \<and>
   (replace_instance include_stmt ref_id soup \<noteq> soup \<longrightarrow>
      (\<exists>t \<in> set (descendants soup). marked ref_id t)) \<and>
   ((\<forall>(r, source_file) \<in> set (instances cluster).
        source_file = p \<longrightarrow> (\<forall>t \<in> set (descendants soup). \<not> marked r t)) \<longrightarrow>
      replace_cluster p cluster soup = soup)"
proof -
  have one: "replace_instance s r soup = soup"
    if "\<forall>t \<in> set (descendants soup). \<not> marked r t" for s r
    using find_path_None[OF that] by (simp add: replace_instance_def)
  have all: "fold (\<lambda>(r, source_file) soup.
                 if source_file = p then replace_instance s r soup else soup) insts soup = soup"
    if "\<forall>(r, source_file) \<in> set insts.
          source_file = p \<longrightarrow> (\<forall>t \<in> set (descendants soup). \<not> marked r t)" for s insts
    using that by (induction insts) (auto simp: one)
  show ?thesis
    using one[of ref_id include_stmt] all[of "instances cluster"]
    by (auto simp: replace_cluster_def)
qed

text \<open>The header \<open>c_0\<close> encloses the navigation bar \<open>c_1\<close>; once the header has been
  replaced by the text of its include, the marker \<open>c_1\<close> is gone and the replacement of
  that instance changes nothing.\<close>

theorem missing_marker_witness:
  "nested_replaced =
     page [] [NavigableString (create_include_statement (py ''partial_1_header.html''))] \<and>
   replace_instance (create_include_statement (py ''partial_2_nav.html'')) (key_of 1)
     nested_replaced = nested_replaced \<and>
   replace_cluster (py ''a.html'')
     \<lparr>partial_file = py ''partial_2_nav.html'', template = Tag (py ''nav'') [] [],
      instances = [(key_of 1, py ''a.html'')]\<rparr> nested_replaced = nested_replaced"
proof -
  have h: "\<forall>t \<in> set (descendants nested_replaced). \<not> marked (key_of 1) t"
    by code_simp
  have h2: "\<forall>(r, source_file) \<in> set (instances
      \<lparr>partial_file = py ''partial_2_nav.html'', template = Tag (py ''nav'') [] [],
      instances = [(key_of 1, py ''a.html'')]\<rparr>).
      source_file = py ''a.html'' \<longrightarrow> (\<forall>t \<in> set (descendants nested_replaced). \<not> marked r t)"
    using h by simp
  have h3: "nested_replaced =
     page [] [NavigableString (create_include_statement (py ''partial_1_header.html''))]"
    by code_simp
  show ?thesis
    using h h2 h3 missing_marker_leaves_document[of nested_replaced "key_of 1"
        "create_include_statement (py ''partial_2_nav.html'')"
        "\<lparr>partial_file = py ''partial_2_nav.html'', template = Tag (py ''nav'') [] [],
          instances = [(key_of 1, py ''a.html'')]\<rparr>" "py ''a.html''"]
    by blast
qed

end
